theory Spec2Isabelle
  imports Main "HOL-Library.AList"
begin

section \<open>The manifest document (package.json) and its merge\<close>

text \<open>
  \<^verbatim>\<open>setup.mjs\<close> parses \<^verbatim>\<open>package.json\<close> and works on the fields \<^verbatim>\<open>type\<close>, \<^verbatim>\<open>main\<close>,
  \<^verbatim>\<open>scripts\<close>, \<^verbatim>\<open>dependencies\<close> and \<^verbatim>\<open>devDependencies\<close>; every other field passes
  through (the extension part of the record). The two script and dependency objects are
  maps from a name to a string, as the manifest schema has them; a manifest that holds
  another kind of value there is outside this model. A field that is absent is \<open>None\<close>;
  JavaScript reads it as \<^verbatim>\<open>undefined\<close>.
\<close>

type_synonym strmap = "string \<rightharpoonup> string"

record pkg =
  pkg_type :: "string option"
  pkg_main :: "string option"
  scripts :: "strmap option"
  dependencies :: "strmap option"
  devDependencies :: "strmap option"

text \<open>
  Every presence test of the script is a JavaScript truthiness test (\<^verbatim>\<open>!pkg.scripts[k]\<close>,
  \<^verbatim>\<open>pkg.main || ...\<close>): \<^verbatim>\<open>undefined\<close> and the empty string are falsy, every other string
  is truthy.
\<close>

definition truthy :: "string option \<Rightarrow> bool" where
  "truthy v = (case v of None \<Rightarrow> False | Some s \<Rightarrow> s \<noteq> [])"

text \<open>The double quote character, for string constants that contain it.\<close>

definition dq :: string where
  "dq = [CHR 0x22]"

definition DESIRED_SCRIPTS :: "(string \<times> string) list" where
  "DESIRED_SCRIPTS =
    [(''dev:react'', ''vite''),
     (''dev:electron'', ''electron .''),
     (''dev'', ''concurrently '' @ dq @ ''npm run dev:react'' @ dq @ '' '' @ dq @ ''npm run dev:electron'' @ dq),
     (''lint'', ''eslint .''),
     (''preview'', ''vite preview''),
     (''build'', ''tsc -b && vite build''),
     (''electron:tsc'', ''tsc -p tsconfig.electron.json''),
     (''electron:dev'', ''cross-env NODE_ENV=development npm run electron:tsc && vite --config vite.electron.config.ts''),
     (''electron:build'', ''cross-env NODE_ENV=production npm run electron:tsc && vite build --config vite.renderer.config.ts''),
     (''build:electron'', ''npx electron-builder --config electron-builder.yml --dir''),
     (''package'', ''npx electron-builder --config electron-builder.yml'')]"

definition DESIRED_DEVDEPS :: "(string \<times> string) list" where
  "DESIRED_DEVDEPS =
    [(''cross-env'', ''^10.0.0''),
     (''electron'', ''^32.1.2''),
     (''electron-builder'', ''^25.0.5''),
     (''vite'', ''^5.4.2''),
     (''vite-plugin-electron'', ''^0.29.0''),
     (''vite-plugin-electron-renderer'', ''^0.14.6''),
     (''concurrently'', ''^8.2.2''),
     (''wait-on'', ''^7.0.1''),
     (''typescript'', ''^5.2.0'')]"

text \<open>The demoted key of a script: \<^verbatim>\<open>`_backup_${k}`\<close>.\<close>

definition bakKey :: "string \<Rightarrow> string" where
  "bakKey k = ''_backup_'' @ k"

text \<open>
  One round of the loop over \<^verbatim>\<open>Object.entries(DESIRED_SCRIPTS)\<close> in \<^verbatim>\<open>patchPackageJson\<close>:
  \<^verbatim>\<open>
  if (!pkg.scripts[k]) {
    pkg.scripts[k] = v;
  } else if (pkg.scripts[k] !== v) {
    const bakKey = `_backup_${k}`;
    if (!pkg.scripts[bakKey]) pkg.scripts[bakKey] = pkg.scripts[k];
    pkg.scripts[k] = v;
  }
  \<close>
\<close>

definition scriptStep :: "strmap \<Rightarrow> string \<times> string \<Rightarrow> strmap" where
  "scriptStep s kv =
     (case kv of (k, v) \<Rightarrow>
        if \<not> truthy (s k) then s(k \<mapsto> v)
        else if s k \<noteq> Some v then
          (if \<not> truthy (s (bakKey k)) then (s(bakKey k := s k))(k \<mapsto> v) else s(k \<mapsto> v))
        else s)"

fun mergeScripts :: "(string \<times> string) list \<Rightarrow> strmap \<Rightarrow> strmap" where
  "mergeScripts [] s = s"
| "mergeScripts (kv # rest) s = mergeScripts rest (scriptStep s kv)"

text \<open>
  One round of the loop over \<^verbatim>\<open>Object.entries(DESIRED_DEVDEPS)\<close>:
  \<^verbatim>\<open>
  if (!pkg.devDependencies[dep] && !(pkg.dependencies && pkg.dependencies[dep])) {
    pkg.devDependencies[dep] = ver;
  }
  \<close>
  \<open>deps\<close> is \<^verbatim>\<open>pkg.dependencies\<close>, which may be absent.
\<close>

definition depStep :: "strmap option \<Rightarrow> strmap \<Rightarrow> string \<times> string \<Rightarrow> strmap" where
  "depStep deps dev dv =
     (case dv of (dep, ver) \<Rightarrow>
        if \<not> truthy (dev dep) \<and> \<not> (case deps of None \<Rightarrow> False | Some d \<Rightarrow> truthy (d dep))
        then dev(dep \<mapsto> ver) else dev)"

fun mergeDeps :: "strmap option \<Rightarrow> (string \<times> string) list \<Rightarrow> strmap \<Rightarrow> strmap" where
  "mergeDeps deps [] dev = dev"
| "mergeDeps deps (dv # rest) dev = mergeDeps deps rest (depStep deps dev dv)"

text \<open>\<^verbatim>\<open>pkg.scripts || {}\<close> and \<^verbatim>\<open>pkg.devDependencies || {}\<close>: an absent object reads as empty.\<close>

definition orEmpty :: "strmap option \<Rightarrow> strmap" where
  "orEmpty m = (case m of None \<Rightarrow> Map.empty | Some s \<Rightarrow> s)"

text \<open>
  The body of \<^verbatim>\<open>patchPackageJson\<close> between \<^verbatim>\<open>JSON.parse\<close> and \<^verbatim>\<open>writeJSON\<close>, on the parsed
  document: \<^verbatim>\<open>type\<close> is set to \<^verbatim>\<open>"module"\<close>, \<^verbatim>\<open>main\<close> is kept when truthy, the scripts and
  the devDependencies are merged. \<^verbatim>\<open>dependencies\<close> is read and never written.
\<close>

definition patchPkg :: "'a pkg_scheme \<Rightarrow> 'a pkg_scheme" where
  "patchPkg p =
     p\<lparr>pkg_type := Some ''module'',
       pkg_main := (if truthy (pkg_main p) then pkg_main p else Some ''src/electron/main''),
       scripts := Some (mergeScripts DESIRED_SCRIPTS (orEmpty (scripts p))),
       devDependencies := Some (mergeDeps (dependencies p) DESIRED_DEVDEPS (orEmpty (devDependencies p)))\<rparr>"

text \<open>The warning \<^verbatim>\<open>patchPackageJson\<close> prints when it overrides a different \<^verbatim>\<open>type\<close>.\<close>

definition typeOverridden :: "'a pkg_scheme \<Rightarrow> bool" where
  "typeOverridden p = (truthy (pkg_type p) \<and> pkg_type p \<noteq> Some ''module'')"

text \<open>
  A list of desired entries is \<open>plain\<close> when no name is listed twice and no name is the
  demoted key of a listed name. Then the rounds of the loop work on disjoint keys.
\<close>

definition plain :: "(string \<times> string) list \<Rightarrow> bool" where
  "plain ds = (distinct (map fst ds) \<and> list_all (\<lambda>k. bakKey k \<notin> fst ` set ds) (map fst ds))"

text \<open>A manifest that has only the three maps, for concrete runs of the merge.\<close>

definition manifest :: "strmap option \<Rightarrow> strmap option \<Rightarrow> strmap option \<Rightarrow> pkg" where
  "manifest s deps dev =
     \<lparr>pkg_type = None, pkg_main = None, scripts = s, dependencies = deps, devDependencies = dev\<rparr>"

section \<open>The file system and the console\<close>

text \<open>
  The script works below \<^verbatim>\<open>ROOT = process.cwd()\<close>. The state of the disk is the tree of
  that directory: a file with its text, or a directory with its entries by name. A path
  is the list of names from \<^verbatim>\<open>ROOT\<close> down, so \<^verbatim>\<open>path.join(ROOT, "src", "ui")\<close> is
  \<open>[''src'', ''ui'']\<close>. An operation of \<^verbatim>\<open>fs/promises\<close> that rejects returns \<open>None\<close>.
\<close>

datatype node = File string | Dir "(string \<times> node) list"

type_synonym path = "string list"

fun lookup :: "path \<Rightarrow> node \<Rightarrow> node option" where
  "lookup [] t = Some t"
| "lookup (x # p) (File c) = None"
| "lookup (x # p) (Dir es) = (case map_of es x of None \<Rightarrow> None | Some c \<Rightarrow> lookup p c)"

text \<open>\<^verbatim>\<open>exists\<close>: \<^verbatim>\<open>fs.access\<close> succeeds.\<close>

definition exists :: "path \<Rightarrow> node \<Rightarrow> bool" where
  "exists p t = (lookup p t \<noteq> None)"

text \<open>\<^verbatim>\<open>fs.readFile(p, "utf8")\<close> rejects on a missing path and on a directory.\<close>

definition readFile :: "path \<Rightarrow> node \<Rightarrow> string option" where
  "readFile p t = (case lookup p t of Some (File c) \<Rightarrow> Some c | _ \<Rightarrow> None)"

text \<open>\<^verbatim>\<open>fs.readdir(p)\<close>: the names in a directory; it rejects on anything else.\<close>

definition readdir :: "path \<Rightarrow> node \<Rightarrow> string list option" where
  "readdir p t = (case lookup p t of Some (Dir es) \<Rightarrow> Some (map fst es) | _ \<Rightarrow> None)"

text \<open>
  \<open>place p n t\<close> puts the node \<open>n\<close> at the path \<open>p\<close>, replacing what is there. The
  directory that is to hold it must exist.
\<close>

fun place :: "path \<Rightarrow> node \<Rightarrow> node \<Rightarrow> node option" where
  "place [] n t = None"
| "place (x # p) n (File c) = None"
| "place [x] n (Dir es) = Some (Dir (AList.update x n es))"
| "place (x # y # p) n (Dir es) =
     (case map_of es x of
        None \<Rightarrow> None
      | Some c \<Rightarrow>
          (case place (y # p) n c of
             None \<Rightarrow> None
           | Some c' \<Rightarrow> Some (Dir (AList.update x c' es))))"

text \<open>\<open>remove p t\<close> deletes the entry at \<open>p\<close> with all below it; a missing path is left alone.\<close>

fun remove :: "path \<Rightarrow> node \<Rightarrow> node" where
  "remove [] t = t"
| "remove (x # p) (File c) = File c"
| "remove [x] (Dir es) = Dir (AList.delete x es)"
| "remove (x # y # p) (Dir es) =
     (case map_of es x of
        None \<Rightarrow> Dir es
      | Some c \<Rightarrow> Dir (AList.update x (remove (y # p) c) es))"

text \<open>
  \<^verbatim>\<open>fs.mkdir(p, { recursive: true })\<close> creates every missing directory on the way and
  rejects when a file is in the way.
\<close>

fun mkdir_p :: "path \<Rightarrow> node \<Rightarrow> node option" where
  "mkdir_p p (File c) = None"
| "mkdir_p [] (Dir es) = Some (Dir es)"
| "mkdir_p (x # p) (Dir es) =
     (case mkdir_p p (case map_of es x of None \<Rightarrow> Dir [] | Some c \<Rightarrow> c) of
        None \<Rightarrow> None
      | Some c' \<Rightarrow> Some (Dir (AList.update x c' es)))"

text \<open>
  \<^verbatim>\<open>const ensureDir = async (p) => { if (!(await exists(p))) await fs.mkdir(p, { recursive: true }); }\<close>
\<close>

definition ensureDir :: "path \<Rightarrow> node \<Rightarrow> node option" where
  "ensureDir p t = (if exists p t then Some t else mkdir_p p t)"

text \<open>\<^verbatim>\<open>fs.writeFile\<close> rejects on a directory and when the parent directory is missing.\<close>

definition writeFile :: "path \<Rightarrow> string \<Rightarrow> node \<Rightarrow> node option" where
  "writeFile p c t = (case lookup p t of Some (Dir es) \<Rightarrow> None | _ \<Rightarrow> place p (File c) t)"

definition copyFile :: "path \<Rightarrow> path \<Rightarrow> node \<Rightarrow> node option" where
  "copyFile src dst t = (case readFile src t of None \<Rightarrow> None | Some c \<Rightarrow> writeFile dst c t)"

text \<open>\<^verbatim>\<open>path.dirname(p)\<close>, and \<^verbatim>\<open>`${p}.bak-electronize`\<close> for a path below \<^verbatim>\<open>ROOT\<close>.\<close>

definition dirname :: "path \<Rightarrow> path" where
  "dirname p = butlast p"

definition bak :: "path \<Rightarrow> path" where
  "bak p = (case rev p of [] \<Rightarrow> [] | x # r \<Rightarrow> rev r @ [x @ ''.bak-electronize''])"

text \<open>
  What the script prints, one event for each call of \<^verbatim>\<open>log\<close>, \<^verbatim>\<open>ok\<close>, \<^verbatim>\<open>warn\<close>,
  \<^verbatim>\<open>console.error\<close> (the text of the message is left out), and how a run can end before
  its last line: \<^verbatim>\<open>process.exit(n)\<close>, or an exception that is thrown.
\<close>

datatype event =
    Unchanged path
  | BackedUp path
  | Wrote path
  | SkipMove
  | NothingToMove
  | Moved string
  | MovedAll
  | CreatedIndex string
  | AlreadyPoints
  | PatchedIndex string
  | TypeOverride
  | ScriptSaved string
  | UpdatedPackage
  | EnsuredIcons
  | RunningInstall
  | InstallFinished
  | SkippedInstall
  | Starting
  | NoSrcSkipping
  | Complete
  | NoSrcFound
  | NoPackageJson
  | FatalError

datatype error = Exit nat | Thrown

record world =
  tree :: node
  console :: "event list"

type_synonym 'a io = "world \<Rightarrow> (error + 'a) \<times> world"

definition say :: "event \<Rightarrow> world \<Rightarrow> world" where
  "say e w = w\<lparr>console := console w @ [e]\<rparr>"

text \<open>\<^verbatim>\<open>const fail = (m) => { console.error(m); process.exit(1); }\<close>\<close>

definition fail :: "event \<Rightarrow> 'a io" where
  "fail e w = (Inl (Exit 1), say e w)"

subsection \<open>The guarded file writer\<close>

text \<open>
  The end of \<^verbatim>\<open>safeWrite\<close>:
  \<^verbatim>\<open>
  await ensureDir(path.dirname(p));
  await fs.writeFile(p, content, "utf8");
  log(`Wrote: ${filePath}`);
  return true;
  \<close>
\<close>

definition writeOut :: "path \<Rightarrow> string \<Rightarrow> bool io" where
  "writeOut p content w =
     (case ensureDir (dirname p) (tree w) of
        None \<Rightarrow> (Inl Thrown, w)
      | Some t1 \<Rightarrow>
          (case writeFile p content t1 of
             None \<Rightarrow> (Inl Thrown, w\<lparr>tree := t1\<rparr>)
           | Some t2 \<Rightarrow> (Inr True, say (Wrote p) (w\<lparr>tree := t2\<rparr>))))"

text \<open>
  \<^verbatim>\<open>
  const safeWrite = async (filePath, content, options = { force: false }) => {
    const p = path.resolve(filePath);
    if (await exists(p)) {
      if (!options.force) {
        const old = await fs.readFile(p, "utf8");
        if (old === content) { log(`Unchanged: ${filePath}`); return false; }
        const bak = `${p}.bak-electronize`;
        await fs.copyFile(p, bak).catch(() => {});
        warn(`Backed up existing file to ${bak}`);
      }
    }
    ...
  \<close>
  The backup is inside the branch \<^verbatim>\<open>!options.force\<close>. A copy that fails is swallowed and
  the warning is printed all the same.
\<close>

definition safeWrite :: "path \<Rightarrow> string \<Rightarrow> bool \<Rightarrow> bool io" where
  "safeWrite p content force w =
     (if exists p (tree w) \<and> \<not> force then
        (case readFile p (tree w) of
           None \<Rightarrow> (Inl Thrown, w)
         | Some old \<Rightarrow>
             if old = content then (Inr False, say (Unchanged p) w)
             else writeOut p content
                    (say (BackedUp (bak p))
                       (w\<lparr>tree := (case copyFile p (bak p) (tree w) of None \<Rightarrow> tree w | Some t \<Rightarrow> t)\<rparr>)))
      else writeOut p content w)"

subsection \<open>The subtree relocator\<close>

definition SRC :: path where "SRC = [''src'']"
definition UI :: path where "UI = [''src'', ''ui'']"
definition ELECTRON_DIR :: path where "ELECTRON_DIR = [''src'', ''electron'']"
definition INDEX_HTML :: path where "INDEX_HTML = [''index.html'']"
definition PACKAGE_JSON :: path where "PACKAGE_JSON = [''package.json'']"
definition TSCONFIG_ELECTRON :: path where "TSCONFIG_ELECTRON = [''tsconfig.electron.json'']"
definition VITE_ELECTRON :: path where "VITE_ELECTRON = [''vite.electron.config.ts'']"
definition VITE_RENDERER :: path where "VITE_RENDERER = [''vite.renderer.config.ts'']"
definition ELECTRON_BUILDER_YML :: path where "ELECTRON_BUILDER_YML = [''electron-builder.yml'']"

text \<open>
  What the run takes from outside the script: the two command line flags, the texts it
  writes (opaque here), \<^verbatim>\<open>JSON.parse\<close> and \<^verbatim>\<open>JSON.stringify\<close> on the manifest, whether the
  platform refuses to rename a path (as it does across devices), and whether
  \<^verbatim>\<open>npm install\<close> exits with 0.
\<close>

record env =
  FORCE :: bool
  DO_INSTALL :: bool
  rename_refused :: "path \<Rightarrow> bool"
  json_parse :: "string \<Rightarrow> pkg option"
  json_stringify :: "pkg \<Rightarrow> string"
  npm_ok :: bool
  MAIN_TS_CONTENT :: string
  PRELOAD_TS_CONTENT :: string
  TSCONFIG_ELECTRON_CONTENT :: string
  VITE_ELECTRON_CONTENT :: string
  VITE_RENDERER_CONTENT :: string
  ELECTRON_BUILDER_YML_CONTENT :: string
  png :: string

text \<open>\<^verbatim>\<open>fs.rename\<close>, \<^verbatim>\<open>fs.cp(from, to, { recursive: true })\<close> to a path that is free.\<close>

definition rename :: "env \<Rightarrow> path \<Rightarrow> path \<Rightarrow> node \<Rightarrow> node option" where
  "rename env from to t =
     (if rename_refused env from then None
      else (case lookup from t of None \<Rightarrow> None | Some n \<Rightarrow> place to n (remove from t)))"

definition cp :: "path \<Rightarrow> path \<Rightarrow> node \<Rightarrow> node option" where
  "cp from to t = (case lookup from t of None \<Rightarrow> None | Some n \<Rightarrow> place to n t)"

text \<open>
  One round of the loop of \<^verbatim>\<open>moveSrcToUi\<close> for a name that is not \<^verbatim>\<open>electron\<close>:
  \<^verbatim>\<open>
  try { await fs.rename(from, to); }
  catch (err) {
    await fs.cp(from, to, { recursive: true });
    await fs.rm(from, { recursive: true, force: true });
  }
  log(`Moved ...`);
  \<close>
\<close>

definition moveOne :: "env \<Rightarrow> string \<Rightarrow> unit io" where
  "moveOne env name w =
     (case rename env (SRC @ [name]) (UI @ [name]) (tree w) of
        Some t \<Rightarrow> (Inr (), say (Moved name) (w\<lparr>tree := t\<rparr>))
      | None \<Rightarrow>
          (case cp (SRC @ [name]) (UI @ [name]) (tree w) of
             None \<Rightarrow> (Inl Thrown, w)
           | Some t \<Rightarrow> (Inr (), say (Moved name) (w\<lparr>tree := remove (SRC @ [name]) t\<rparr>))))"

fun moveItems :: "env \<Rightarrow> string list \<Rightarrow> unit io" where
  "moveItems env [] w = (Inr (), w)"
| "moveItems env (name # rest) w =
     (if name = ''electron'' then moveItems env rest w
      else (case moveOne env name w of
              (Inl e, w') \<Rightarrow> (Inl e, w')
            | (Inr u, w') \<Rightarrow> moveItems env rest w'))"

text \<open>
  \<^verbatim>\<open>
  async function moveSrcToUi() {
    if (!(await exists(SRC))) fail("No src/ directory found. ...");
    if (await exists(UI)) { log("src/ui already exists ..."); return; }
    const items = await fs.readdir(SRC);
    const hasNonElectron = items.some((name) => name !== "electron");
    if (!hasNonElectron) { log("... nothing to move."); return; }
    await ensureDir(UI);
    for (const name of items) { if (name === "electron") continue; ... }
    ok("Moved src -> src/ui (non-electron files).");
  }
  \<close>
\<close>

definition moveSrcToUi :: "env \<Rightarrow> unit io" where
  "moveSrcToUi env w =
     (if \<not> exists SRC (tree w) then fail NoSrcFound w
      else if exists UI (tree w) then (Inr (), say SkipMove w)
      else (case readdir SRC (tree w) of
              None \<Rightarrow> (Inl Thrown, w)
            | Some items \<Rightarrow>
                if \<not> list_ex (\<lambda>name. name \<noteq> ''electron'') items then (Inr (), say NothingToMove w)
                else (case ensureDir UI (tree w) of
                        None \<Rightarrow> (Inl Thrown, w)
                      | Some t \<Rightarrow>
                          (case moveItems env items (w\<lparr>tree := t\<rparr>) of
                             (Inl e, w') \<Rightarrow> (Inl e, w')
                           | (Inr u, w') \<Rightarrow> (Inr (), say MovedAll w')))))"

text \<open>The entries of the root directory, as a map.\<close>

definition rootMap :: "node \<Rightarrow> string \<rightharpoonup> node" where
  "rootMap t = (case t of Dir rs \<Rightarrow> map_of rs | File c \<Rightarrow> Map.empty)"

subsection \<open>Concrete projects\<close>

text \<open>
  An environment for concrete runs: no flag is given, the platform renames unless
  \<open>refuse\<close> is set, the JSON functions know the empty manifest \<^verbatim>\<open>{}\<close> only, and the texts
  that are written are short stand-ins.
\<close>

definition exampleEnv :: "bool \<Rightarrow> env" where
  "exampleEnv refuse =
     \<lparr>FORCE = False, DO_INSTALL = False, rename_refused = (\<lambda>p. refuse),
      json_parse = (\<lambda>s. if s = ''{}'' then Some (manifest None None None) else None),
      json_stringify = (\<lambda>p. ''{ merged }''), npm_ok = True,
      MAIN_TS_CONTENT = ''main'', PRELOAD_TS_CONTENT = ''preload'',
      TSCONFIG_ELECTRON_CONTENT = ''tsconfig'', VITE_ELECTRON_CONTENT = ''vite electron'',
      VITE_RENDERER_CONTENT = ''vite renderer'', ELECTRON_BUILDER_YML_CONTENT = ''builder'',
      png = ''png''\<rparr>"

text \<open>The project of the specification's example: \<^verbatim>\<open>src/a.ts\<close>, \<^verbatim>\<open>src/b.css\<close>, \<^verbatim>\<open>src/electron/c.ts\<close>.\<close>

definition exampleSrc :: "(string \<times> node) list" where
  "exampleSrc =
     [(''a.ts'', File ''A''), (''b.css'', File ''B''), (''electron'', Dir [(''c.ts'', File ''C'')])]"

definition exampleWorld :: world where
  "exampleWorld = \<lparr>tree = Dir [(''src'', Dir exampleSrc)], console = []\<rparr>"

text \<open>A project where \<^verbatim>\<open>src/ui\<close> exists already and \<^verbatim>\<open>src/a.ts\<close> lies beside it.\<close>

definition migratedWorld :: world where
  "migratedWorld =
     \<lparr>tree = Dir [(''src'', Dir [(''a.ts'', File ''A''), (''ui'', Dir [])])], console = []\<rparr>"

text \<open>A project whose \<^verbatim>\<open>src\<close> holds \<^verbatim>\<open>electron\<close> only, and one with \<^verbatim>\<open>src/ui\<close> in place.\<close>

definition electronOnlyWorld :: world where
  "electronOnlyWorld =
     \<lparr>tree = Dir [(''src'', Dir [(''electron'', Dir [(''main.ts'', File ''M'')])])], console = []\<rparr>"

definition doneWorld :: world where
  "doneWorld =
     \<lparr>tree = Dir [(''src'', Dir [(''electron'', Dir []), (''ui'', Dir [(''main.tsx'', File ''X'')])])],
      console = []\<rparr>"

text \<open>A project that has an \<^verbatim>\<open>index.html\<close> with the text \<^verbatim>\<open>old\<close>.\<close>

definition indexWorld :: world where
  "indexWorld = \<lparr>tree = Dir [(''index.html'', File ''old'')], console = []\<rparr>"

section \<open>The anchor text patcher\<close>

text \<open>
  A text is a list of characters. The characters of Isabelle are the code points below
  256, which covers every character the patterns below name; of the white space that
  \<^verbatim>\<open>\s\<close> matches, the code points from U+1680 on are outside this model.
\<close>

definition nl :: string where
  "nl = [CHR 0x0A]"

definition relScript :: "string \<Rightarrow> string" where
  "relScript entry =
     ''<script type='' @ dq @ ''module'' @ dq @ '' src='' @ dq @ ''/src/ui/'' @ entry @ dq @ ''></script>''"

subsection \<open>The regular expression\<close>

text \<open>
  \<^verbatim>\<open>/<script[^>]*type=["']module["'][^>]*src=["'][^"']+["'][^>]*>\s*<\/script>/i\<close>

  The matcher follows the backtracking of the JavaScript engine: each piece of the
  pattern takes the rest of the pattern as its continuation, a greedy \<^verbatim>\<open>*\<close> tries one
  more character first and falls back to the continuation. The result is the text that
  follows the match.

  Under the flag \<^verbatim>\<open>i\<close> a letter of the pattern matches itself in both cases and nothing
  else (the pattern has ASCII letters only, and no flag \<^verbatim>\<open>u\<close>).
\<close>

definition ieq :: "char \<Rightarrow> char \<Rightarrow> bool" where
  "ieq p c =
     (c = p
      \<or> (65 \<le> (of_char c :: nat) \<and> (of_char c :: nat) \<le> 90 \<and> (of_char p :: nat) = of_char c + 32)
      \<or> (65 \<le> (of_char p :: nat) \<and> (of_char p :: nat) \<le> 90 \<and> (of_char c :: nat) = of_char p + 32))"

definition isQuote :: "char \<Rightarrow> bool" where
  "isQuote c = (c = CHR 0x22 \<or> c = CHR 0x27)"

definition notQuote :: "char \<Rightarrow> bool" where
  "notQuote c = (c \<noteq> CHR 0x22 \<and> c \<noteq> CHR 0x27)"

definition notGt :: "char \<Rightarrow> bool" where
  "notGt c = (c \<noteq> CHR ''>'')"

definition isSpace :: "char \<Rightarrow> bool" where
  "isSpace c = (c \<in> set [CHR 0x09, CHR 0x0A, CHR 0x0B, CHR 0x0C, CHR 0x0D, CHR 0x20, CHR 0xA0])"

type_synonym cont = "string \<Rightarrow> string option"

fun lit :: "string \<Rightarrow> cont \<Rightarrow> cont" where
  "lit [] k s = k s"
| "lit (p # ps) k [] = None"
| "lit (p # ps) k (c # cs) = (if ieq p c then lit ps k cs else None)"

fun one :: "(char \<Rightarrow> bool) \<Rightarrow> cont \<Rightarrow> cont" where
  "one P k [] = None"
| "one P k (c # cs) = (if P c then k cs else None)"

fun star :: "(char \<Rightarrow> bool) \<Rightarrow> cont \<Rightarrow> cont" where
  "star P k [] = k []"
| "star P k (c # cs) =
     (if P c then (case star P k cs of Some r \<Rightarrow> Some r | None \<Rightarrow> k (c # cs)) else k (c # cs))"

definition plus :: "(char \<Rightarrow> bool) \<Rightarrow> cont \<Rightarrow> cont" where
  "plus P k = one P (star P k)"

text \<open>A match of \<^verbatim>\<open>moduleTagRegex\<close> that starts at the head of the text.\<close>

definition moduleTagRegex :: cont where
  "moduleTagRegex =
     lit ''<script'' (star notGt (lit ''type='' (one isQuote (lit ''module'' (one isQuote
       (star notGt (lit ''src='' (one isQuote (plus notQuote (one isQuote
         (star notGt (lit ''>'' (star isSpace (lit ''</script>'' Some))))))))))))))"

text \<open>
  The first match in a text, as \<^verbatim>\<open>regex.test\<close> and \<^verbatim>\<open>String.prototype.replace\<close> look for
  it: the leftmost start at which the pattern matches. The result is the text before
  the match and the text after it.
\<close>

fun findTag :: "string \<Rightarrow> (string \<times> string) option" where
  "findTag [] = (case moduleTagRegex [] of Some r \<Rightarrow> Some ([], r) | None \<Rightarrow> None)"
| "findTag (c # cs) =
     (case moduleTagRegex (c # cs) of
        Some r \<Rightarrow> Some ([], r)
      | None \<Rightarrow> (case findTag cs of None \<Rightarrow> None | Some (pre, r) \<Rightarrow> Some (c # pre, r)))"

subsection \<open>Plain searches\<close>

definition startsWith :: "string \<Rightarrow> string \<Rightarrow> bool" where
  "startsWith pat s = (take (length pat) s = pat)"

text \<open>\<^verbatim>\<open>s.includes(pat)\<close> and \<^verbatim>\<open>s.replace(pat, rep)\<close> for a string \<open>pat\<close> (the first occurrence).\<close>

fun str_includes :: "string \<Rightarrow> string \<Rightarrow> bool" where
  "str_includes pat [] = (pat = [])"
| "str_includes pat (c # cs) = (startsWith pat (c # cs) \<or> str_includes pat cs)"

fun replaceFirst :: "string \<Rightarrow> string \<Rightarrow> string \<Rightarrow> string" where
  "replaceFirst pat rep [] = (if pat = [] then rep else [])"
| "replaceFirst pat rep (c # cs) =
     (if startsWith pat (c # cs) then rep @ drop (length pat) (c # cs)
      else c # replaceFirst pat rep cs)"

subsection \<open>\<^verbatim>\<open>detectEntry\<close> and \<^verbatim>\<open>patchIndexHtml\<close>\<close>

definition ENTRY_CANDIDATES :: "string list" where
  "ENTRY_CANDIDATES =
     [''main.tsx'', ''main.jsx'', ''index.tsx'', ''index.jsx'', ''main.ts'', ''index.ts'',
      ''main.js'', ''index.js'']"

fun firstIn :: "string list \<Rightarrow> node \<Rightarrow> string" where
  "firstIn [] t = ''main.tsx''"
| "firstIn (c # cs) t = (if exists (UI @ [c]) t then c else firstIn cs t)"

definition detectEntry :: "node \<Rightarrow> string" where
  "detectEntry t = firstIn ENTRY_CANDIDATES t"

text \<open>The document that \<^verbatim>\<open>patchIndexHtml\<close> creates when there is no \<^verbatim>\<open>index.html\<close>.\<close>

definition indexTemplate :: "string \<Rightarrow> string" where
  "indexTemplate entry =
     ''<!doctype html>'' @ nl
     @ ''<html lang='' @ dq @ ''en'' @ dq @ ''>'' @ nl
     @ ''  <head>'' @ nl
     @ ''    <meta charset='' @ dq @ ''utf-8'' @ dq @ ''/>'' @ nl
     @ ''    <meta name='' @ dq @ ''viewport'' @ dq @ '' content='' @ dq
         @ ''width=device-width,initial-scale=1'' @ dq @ ''/>'' @ nl
     @ ''    <link rel='' @ dq @ ''icon'' @ dq @ '' href='' @ dq @ ''/favicon.ico'' @ dq @ ''/>'' @ nl
     @ ''    <title>Electronized App</title>'' @ nl
     @ ''  </head>'' @ nl
     @ ''  <body>'' @ nl
     @ ''    <div id='' @ dq @ ''root'' @ dq @ ''></div>'' @ nl
     @ ''    '' @ relScript entry @ nl
     @ ''  </body>'' @ nl
     @ ''</html>'' @ nl"

text \<open>
  What \<^verbatim>\<open>patchIndexHtml\<close> makes of the text of an existing \<^verbatim>\<open>index.html\<close>:
  \<^verbatim>\<open>
  if (moduleTagRegex.test(html)) {
    html = html.replace(moduleTagRegex, relScript);
  } else if (!html.includes(relScript)) {
    html = html.replace("</body>", `  ${relScript}\n</body>`);
  } else { log("index.html already points to the detected entry -> skipping patch."); }
  \<close>
  The replacement text has no \<^verbatim>\<open>$\<close>, for the entry is one of \<^verbatim>\<open>ENTRY_CANDIDATES\<close>, so
  \<^verbatim>\<open>replace\<close> inserts it as it is.
\<close>

definition patchedHtml :: "string \<Rightarrow> string \<Rightarrow> string" where
  "patchedHtml entry html =
     (case findTag html of
        Some (pre, rest) \<Rightarrow> pre @ relScript entry @ rest
      | None \<Rightarrow>
          if \<not> str_includes (relScript entry) html
          then replaceFirst ''</body>'' (''  '' @ relScript entry @ nl @ ''</body>'') html
          else html)"

definition patchIndexHtml :: "string \<Rightarrow> unit io" where
  "patchIndexHtml entry w =
     (if \<not> exists INDEX_HTML (tree w) then
        (case safeWrite INDEX_HTML (indexTemplate entry) False w of
           (Inl e, w') \<Rightarrow> (Inl e, w')
         | (Inr b, w') \<Rightarrow> (Inr (), say (CreatedIndex entry) w'))
      else
        (case readFile INDEX_HTML (tree w) of
           None \<Rightarrow> (Inl Thrown, w)
         | Some html \<Rightarrow>
             (case safeWrite INDEX_HTML (patchedHtml entry html) True
                     (if findTag html = None \<and> str_includes (relScript entry) html
                      then say AlreadyPoints w else w) of
                (Inl e, w') \<Rightarrow> (Inl e, w')
              | (Inr b, w') \<Rightarrow> (Inr (), say (PatchedIndex entry) w'))))"

text \<open>
  How many places of a text open a script tag, that is, start with \<^verbatim>\<open><script\<close> in any
  case of the letters.
\<close>

definition opensScript :: "string \<Rightarrow> bool" where
  "opensScript s = (lit ''<script'' Some s \<noteq> None)"

fun countScripts :: "string \<Rightarrow> nat" where
  "countScripts [] = 0"
| "countScripts (c # cs) = (if opensScript (c # cs) then 1 else 0) + countScripts cs"

text \<open>
  How many matches of \<^verbatim>\<open>moduleTagRegex\<close> a scan of the text from left to right finds, each
  scan going on where the last match ended. \<open>skip\<close> counts the characters of the last
  match that are still ahead.
\<close>

fun countFrom :: "nat \<Rightarrow> string \<Rightarrow> nat" where
  "countFrom skip [] = 0"
| "countFrom skip (c # cs) =
     (if 0 < skip then countFrom (skip - 1) cs
      else (case moduleTagRegex (c # cs) of
              Some r \<Rightarrow> 1 + countFrom (length cs - length r) cs
            | None \<Rightarrow> countFrom 0 cs))"

definition countTags :: "string \<Rightarrow> nat" where
  "countTags s = countFrom 0 s"

text \<open>
  Three documents: one whose script tag has \<^verbatim>\<open>type\<close> before \<^verbatim>\<open>src\<close>, as the pattern
  expects, one whose module script tag has \<^verbatim>\<open>src\<close> first, and one where an attribute
  value that is never closed stands before the tag.
\<close>

definition oldTag :: string where
  "oldTag = ''<script type='' @ dq @ ''module'' @ dq @ '' src='' @ dq @ ''/old/entry.js'' @ dq @ ''></script>''"

definition oldTagSrcFirst :: string where
  "oldTagSrcFirst = ''<script src='' @ dq @ ''/old/entry.js'' @ dq @ '' type='' @ dq @ ''module'' @ dq @ ''></script>''"

definition docTypeFirst :: string where
  "docTypeFirst = ''<body><div id=root></div>'' @ oldTag @ ''</body>''"

definition docSrcFirst :: string where
  "docSrcFirst = ''<body><div id=root></div>'' @ oldTagSrcFirst @ ''</body>''"

definition docUnclosed :: string where
  "docUnclosed =
     ''<script type='' @ dq @ ''module'' @ dq @ '' src='' @ dq @ ''foo>bar''
     @ ''<script type='' @ dq @ ''module'' @ dq @ '' src='' @ dq @ ''a>b'' @ dq @ ''></script>''"


text \<open>A project whose \<^verbatim>\<open>index.html\<close> is the first of these documents.\<close>

definition htmlWorld :: world where
  "htmlWorld = \<lparr>tree = Dir [(''index.html'', File docTypeFirst)], console = []\<rparr>"

section \<open>The manifest on disk, and the run\<close>

text \<open>
  The names of the scripts for which the loop of \<^verbatim>\<open>patchPackageJson\<close> prints its warning
  (the second branch of a round), in the order of the rounds.
\<close>

fun scriptWarnings :: "(string \<times> string) list \<Rightarrow> strmap \<Rightarrow> string list" where
  "scriptWarnings [] s = []"
| "scriptWarnings (kv # rest) s =
     (if truthy (s (fst kv)) \<and> s (fst kv) \<noteq> Some (snd kv) then [fst kv] else [])
     @ scriptWarnings rest (scriptStep s kv)"

fun sayAll :: "event list \<Rightarrow> world \<Rightarrow> world" where
  "sayAll [] w = w"
| "sayAll (e # es) w = sayAll es (say e w)"

text \<open>A call of \<^verbatim>\<open>safeWrite\<close> whose result is not used.\<close>

definition writeStage :: "path \<Rightarrow> string \<Rightarrow> bool \<Rightarrow> unit io" where
  "writeStage p content force w =
     (case safeWrite p content force w of
        (Inl e, w') \<Rightarrow> (Inl e, w')
      | (Inr b, w') \<Rightarrow> (Inr (), w'))"

text \<open>
  \<^verbatim>\<open>
  async function patchPackageJson() {
    if (!(await exists(PACKAGE_JSON))) fail("package.json not found.");
    const originalPkg = await fs.readFile(PACKAGE_JSON, "utf8");
    await safeWrite(PACKAGE_JSON + ".bak-electronize", originalPkg, { force: true });
    const pkg = JSON.parse(originalPkg);
    ...
    await writeJSON(PACKAGE_JSON, pkg);
    ok("Updated package.json (backup at package.json.bak-electronize)");
  }
  const writeJSON = async (p, obj) => safeWrite(p, JSON.stringify(obj, null, 2) + "\n", { force: true });
  \<close>
  \<^verbatim>\<open>JSON.parse\<close> throws on a text that is not JSON.
\<close>

definition patchPackageJson :: "env \<Rightarrow> unit io" where
  "patchPackageJson env w =
     (if \<not> exists PACKAGE_JSON (tree w) then fail NoPackageJson w
      else
        (case readFile PACKAGE_JSON (tree w) of
           None \<Rightarrow> (Inl Thrown, w)
         | Some originalPkg \<Rightarrow>
             (case writeStage (bak PACKAGE_JSON) originalPkg True w of
                (Inl e, w1) \<Rightarrow> (Inl e, w1)
              | (Inr u, w1) \<Rightarrow>
                  (case json_parse env originalPkg of
                     None \<Rightarrow> (Inl Thrown, w1)
                   | Some pkg \<Rightarrow>
                       (case writeStage PACKAGE_JSON (json_stringify env (patchPkg pkg) @ nl) True
                               (sayAll (map ScriptSaved
                                          (scriptWarnings DESIRED_SCRIPTS (orEmpty (scripts pkg))))
                                  (if typeOverridden pkg then say TypeOverride w1 else w1)) of
                          (Inl e, w2) \<Rightarrow> (Inl e, w2)
                        | (Inr u, w2) \<Rightarrow> (Inr (), say UpdatedPackage w2))))))"

text \<open>
  \<^verbatim>\<open>
  async function ensurePublicIcons() {
    const PUB = path.join(ROOT, "public");
    await ensureDir(PUB);
    ...
    if (!(await exists(icoPath))) await fs.writeFile(icoPath, png);
    if (!(await exists(pngPath))) await fs.writeFile(pngPath, png);
    ok("Ensured public/favicon.ico and public/icon.png");
  }
  \<close>
\<close>

definition writeIfMissing :: "path \<Rightarrow> string \<Rightarrow> node \<Rightarrow> node option" where
  "writeIfMissing p c t = (if exists p t then Some t else writeFile p c t)"

definition ensurePublicIcons :: "env \<Rightarrow> unit io" where
  "ensurePublicIcons env w =
     (case ensureDir [''public''] (tree w) of
        None \<Rightarrow> (Inl Thrown, w)
      | Some t1 \<Rightarrow>
          (case writeIfMissing [''public'', ''favicon.ico''] (png env) t1 of
             None \<Rightarrow> (Inl Thrown, w\<lparr>tree := t1\<rparr>)
           | Some t2 \<Rightarrow>
               (case writeIfMissing [''public'', ''icon.png''] (png env) t2 of
                  None \<Rightarrow> (Inl Thrown, w\<lparr>tree := t2\<rparr>)
                | Some t3 \<Rightarrow> (Inr (), say EnsuredIcons (w\<lparr>tree := t3\<rparr>)))))"

text \<open>\<^verbatim>\<open>runNpmInstall\<close> rejects when \<^verbatim>\<open>npm install\<close> exits with another code than 0.\<close>

definition runNpmInstall :: "env \<Rightarrow> unit io" where
  "runNpmInstall env w =
     (if npm_ok env then (Inr (), say InstallFinished (say RunningInstall w))
      else (Inl Thrown, say RunningInstall w))"

text \<open>
  The body of the \<^verbatim>\<open>try\<close> block at the end of the script is a sequence of awaited
  calls; the first that ends the process or throws ends the sequence. The stages up to
  the \<^verbatim>\<open>electron-builder.yml\<close>, then \<^verbatim>\<open>patchPackageJson\<close>, then the stages after it.
  The relocation stage is
  \<^verbatim>\<open>
  if (fsSync.existsSync(SRC)) { await moveSrcToUi(); }
  else { warn("No src/ directory found - skipping move."); }
  \<close>
\<close>

definition relocationStage :: "env \<Rightarrow> unit io" where
  "relocationStage env w =
     (if exists SRC (tree w) then moveSrcToUi env w else (Inr (), say NoSrcSkipping w))"

definition electronDirStage :: "unit io" where
  "electronDirStage w =
     (case ensureDir ELECTRON_DIR (tree w) of
        None \<Rightarrow> (Inl Thrown, w)
      | Some t \<Rightarrow> (Inr (), w\<lparr>tree := t\<rparr>))"

definition firstStages :: "env \<Rightarrow> unit io list" where
  "firstStages env =
     [(\<lambda>w. (Inr (), say Starting w)),
      relocationStage env,
      electronDirStage,
      writeStage (ELECTRON_DIR @ [''main.ts'']) (MAIN_TS_CONTENT env) (FORCE env),
      writeStage (ELECTRON_DIR @ [''preload.ts'']) (PRELOAD_TS_CONTENT env) (FORCE env),
      (\<lambda>w. patchIndexHtml (detectEntry (tree w)) w),
      writeStage TSCONFIG_ELECTRON (TSCONFIG_ELECTRON_CONTENT env) (FORCE env),
      writeStage VITE_ELECTRON (VITE_ELECTRON_CONTENT env) (FORCE env),
      writeStage VITE_RENDERER (VITE_RENDERER_CONTENT env) (FORCE env),
      writeStage ELECTRON_BUILDER_YML (ELECTRON_BUILDER_YML_CONTENT env) (FORCE env)]"

definition lastStages :: "env \<Rightarrow> unit io list" where
  "lastStages env =
     [ensurePublicIcons env,
      (\<lambda>w. if DO_INSTALL env then runNpmInstall env w else (Inr (), say SkippedInstall w)),
      (\<lambda>w. (Inr (), say Complete w))]"

fun runStages :: "unit io list \<Rightarrow> unit io" where
  "runStages [] w = (Inr (), w)"
| "runStages (s # ss) w =
     (case s w of
        (Inl e, w') \<Rightarrow> (Inl e, w')
      | (Inr u, w') \<Rightarrow> runStages ss w')"

text \<open>
  The whole run: the exit status of the process and the state it leaves. The warning
  about the version of Node at the start and the closing list of next steps print only,
  and are left out.
  \<^verbatim>\<open>process.exit(1)\<close> inside a stage ends the process there; an exception reaches the
  \<^verbatim>\<open>catch\<close>, which prints it and exits with 1.
\<close>

definition main :: "env \<Rightarrow> world \<Rightarrow> nat \<times> world" where
  "main env w =
     (case runStages (firstStages env @ patchPackageJson env # lastStages env) w of
        (Inr u, w') \<Rightarrow> (0, w')
      | (Inl (Exit n), w') \<Rightarrow> (n, w')
      | (Inl Thrown, w') \<Rightarrow> (1, say FatalError w'))"

text \<open>A project that has a manifest \<^verbatim>\<open>{}\<close> and no \<^verbatim>\<open>src\<close> directory.\<close>

definition noSrcWorld :: world where
  "noSrcWorld = \<lparr>tree = Dir [(''package.json'', File ''{}'')], console = []\<rparr>"

section \<open>Properties of the merge\<close>

lemma bakKey_neq: "bakKey k \<noteq> k"
proof
  assume "bakKey k = k"
  then have "length (bakKey k) = length k" by simp
  then show False by (simp add: bakKey_def)
qed

lemma bakKey_inj: "bakKey a = bakKey b \<Longrightarrow> a = b"
  by (simp add: bakKey_def)

lemma scriptStep_other:
  "x \<noteq> k \<Longrightarrow> x \<noteq> bakKey k \<Longrightarrow> scriptStep s (k, v) x = s x"
  by (simp add: scriptStep_def)

lemma scriptStep_key: "scriptStep s (k, v) k = Some v"
  using bakKey_neq [of k] by (auto simp: scriptStep_def truthy_def split: option.splits)

lemma scriptStep_bak:
  "scriptStep s (k, v) (bakKey k) =
     (if truthy (s k) \<and> s k \<noteq> Some v \<and> \<not> truthy (s (bakKey k)) then s k else s (bakKey k))"
  using bakKey_neq [of k] by (auto simp: scriptStep_def)

lemma scriptStep_cong:
  "t k = s k \<Longrightarrow> t (bakKey k) = s (bakKey k) \<Longrightarrow> x = k \<or> x = bakKey k \<Longrightarrow>
   scriptStep t (k, v) x = scriptStep s (k, v) x"
  by (auto simp: scriptStep_key scriptStep_bak)

lemma scriptStep_present: "s x \<noteq> None \<Longrightarrow> scriptStep s kv x \<noteq> None"
  by (cases kv) (auto simp: scriptStep_def truthy_def split: option.splits)

lemma mergeScripts_present: "s x \<noteq> None \<Longrightarrow> mergeScripts ds s x \<noteq> None"
proof (induction ds arbitrary: s)
  case Nil
  then show ?case by simp
next
  case (Cons kv ds)
  from Cons.prems have "scriptStep s kv x \<noteq> None" by (rule scriptStep_present)
  then have "mergeScripts ds (scriptStep s kv) x \<noteq> None" by (rule Cons.IH)
  then show ?case by simp
qed

lemma mergeScripts_untouched:
  "x \<notin> fst ` set ds \<Longrightarrow> x \<notin> bakKey ` fst ` set ds \<Longrightarrow> mergeScripts ds s x = s x"
proof (induction ds arbitrary: s)
  case Nil
  then show ?case by simp
next
  case (Cons kv ds)
  obtain k v where kv: "kv = (k, v)" by (cases kv)
  from Cons.prems kv have "x \<noteq> k" "x \<noteq> bakKey k" by auto
  then have "scriptStep s kv x = s x" by (simp add: kv scriptStep_other)
  moreover from Cons.prems have "mergeScripts ds (scriptStep s kv) x = scriptStep s kv x"
    by (intro Cons.IH) auto
  ultimately show ?case by simp
qed

lemma plain_Cons:
  "plain ((k, v) # ds) \<Longrightarrow> plain ds \<and> k \<notin> fst ` set ds \<and> k \<notin> bakKey ` fst ` set ds
     \<and> bakKey k \<notin> fst ` set ds \<and> bakKey k \<notin> bakKey ` fst ` set ds"
  by (auto simp: plain_def list_all_iff dest: bakKey_inj)

lemma mergeScripts_local:
  "plain ds \<Longrightarrow> (k, v) \<in> set ds \<Longrightarrow> x = k \<or> x = bakKey k \<Longrightarrow>
   mergeScripts ds s x = scriptStep s (k, v) x"
proof (induction ds arbitrary: s)
  case Nil
  then show ?case by simp
next
  case (Cons kv ds)
  obtain k' v' where kv: "kv = (k', v')" by (cases kv)
  note pc = plain_Cons [OF Cons.prems(1) [unfolded kv]]
  show ?case
  proof (cases "k' = k")
    case True
    with Cons.prems(2) pc kv have v': "v' = v" by (auto simp: rev_image_eqI)
    from pc True have "k \<notin> fst ` set ds" "k \<notin> bakKey ` fst ` set ds"
      "bakKey k \<notin> fst ` set ds" "bakKey k \<notin> bakKey ` fst ` set ds" by simp_all
    with Cons.prems(3) have "x \<notin> fst ` set ds" "x \<notin> bakKey ` fst ` set ds"
      by (elim disjE; simp)+
    then have "mergeScripts ds (scriptStep s (k, v)) x = scriptStep s (k, v) x"
      by (rule mergeScripts_untouched)
    with kv True v' show ?thesis by simp
  next
    case False
    with Cons.prems(2) kv have mem: "(k, v) \<in> set ds" by auto
    then have kin: "k \<in> fst ` set ds" by (auto simp: rev_image_eqI)
    have k1: "k \<noteq> bakKey k'"
      using pc kin by blast
    have k2: "bakKey k \<noteq> k'"
      using pc kin by blast
    have k3: "bakKey k \<noteq> bakKey k'" using False by (auto dest: bakKey_inj)
    have a: "scriptStep s (k', v') k = s k" using False k1 by (simp add: scriptStep_other)
    have b: "scriptStep s (k', v') (bakKey k) = s (bakKey k)"
      using k2 k3 by (simp add: scriptStep_other)
    have "mergeScripts ds (scriptStep s (k', v')) x = scriptStep (scriptStep s (k', v')) (k, v) x"
      using pc mem Cons.prems(3) by (intro Cons.IH) auto
    also have "\<dots> = scriptStep s (k, v) x"
      using a b Cons.prems(3) by (rule scriptStep_cong)
    finally show ?thesis by (simp add: kv)
  qed
qed

lemma plain_DESIRED_SCRIPTS: "plain DESIRED_SCRIPTS"
  by (simp add: plain_def DESIRED_SCRIPTS_def bakKey_def)

lemma nonempty_DESIRED_SCRIPTS: "(k, v) \<in> set DESIRED_SCRIPTS \<Longrightarrow> v \<noteq> []"
  by (auto simp: DESIRED_SCRIPTS_def)

lemma merged_scripts:
  "orEmpty (scripts (patchPkg p)) = mergeScripts DESIRED_SCRIPTS (orEmpty (scripts p))"
  by (simp add: patchPkg_def orEmpty_def)

lemma desired_local:
  "(k, v) \<in> set DESIRED_SCRIPTS \<Longrightarrow> x = k \<or> x = bakKey k \<Longrightarrow>
   mergeScripts DESIRED_SCRIPTS s x = scriptStep s (k, v) x"
  by (rule mergeScripts_local [OF plain_DESIRED_SCRIPTS])

lemma desired_installed:
  "(k, v) \<in> set DESIRED_SCRIPTS \<Longrightarrow> mergeScripts DESIRED_SCRIPTS s k = Some v"
  by (simp add: desired_local scriptStep_key)

lemma scriptStep_fixed: "s k = Some v \<Longrightarrow> v \<noteq> [] \<Longrightarrow> scriptStep s (k, v) = s"
  by (simp add: scriptStep_def truthy_def)

lemma mergeScripts_fixed:
  "list_all (\<lambda>kv. s (fst kv) = Some (snd kv) \<and> snd kv \<noteq> []) ds \<Longrightarrow> mergeScripts ds s = s"
proof (induction ds)
  case Nil
  then show ?case by simp
next
  case (Cons kv ds)
  obtain k v where kv: "kv = (k, v)" by (cases kv)
  from Cons.prems kv have "scriptStep s kv = s" by (simp add: scriptStep_fixed)
  with Cons show ?case by simp
qed

lemma mergeScripts_idem:
  "mergeScripts DESIRED_SCRIPTS (mergeScripts DESIRED_SCRIPTS s) = mergeScripts DESIRED_SCRIPTS s"
proof (rule mergeScripts_fixed)
  show "list_all (\<lambda>kv. mergeScripts DESIRED_SCRIPTS s (fst kv) = Some (snd kv) \<and> snd kv \<noteq> [])
          DESIRED_SCRIPTS"
    unfolding list_all_iff
  proof
    fix kv assume "kv \<in> set DESIRED_SCRIPTS"
    then have "(fst kv, snd kv) \<in> set DESIRED_SCRIPTS" by simp
    then show "mergeScripts DESIRED_SCRIPTS s (fst kv) = Some (snd kv) \<and> snd kv \<noteq> []"
      using desired_installed nonempty_DESIRED_SCRIPTS by blast
  qed
qed

lemma merged_scripts_twice: "scripts (patchPkg (patchPkg p)) = scripts (patchPkg p)"
proof -
  have "scripts (patchPkg q) = Some (mergeScripts DESIRED_SCRIPTS (orEmpty (scripts q)))" for q :: "'a pkg_scheme"
    by (simp add: patchPkg_def)
  then show ?thesis by (simp add: orEmpty_def mergeScripts_idem)
qed

text \<open>
  C4, as the code has it. For every desired script \<open>(k, v)\<close>, for instance
  \<^verbatim>\<open>"build": "tsc -b && vite build"\<close>: when the manifest holds a non-empty command \<open>a\<close>
  at \<open>k\<close> that differs from \<open>v\<close>, the merge leaves \<open>v\<close> at \<open>k\<close>; the demoted key
  \<^verbatim>\<open>_backup_<k>\<close> holds \<open>a\<close> unless it already held a non-empty value, which is kept;
  a second merge changes no script at all.
\<close>

theorem conflict_demotion:
  assumes "(k, v) \<in> set DESIRED_SCRIPTS"
    and "orEmpty (scripts p) k = Some a" and "a \<noteq> []" and "a \<noteq> v"
  shows "orEmpty (scripts (patchPkg p)) k = Some v
       \<and> orEmpty (scripts (patchPkg p)) (bakKey k) =
           (if truthy (orEmpty (scripts p) (bakKey k)) then orEmpty (scripts p) (bakKey k) else Some a)
       \<and> scripts (patchPkg (patchPkg p)) = scripts (patchPkg p)"
proof -
  let ?s = "orEmpty (scripts p)"
  have "mergeScripts DESIRED_SCRIPTS ?s k = Some v"
    using assms(1) by (rule desired_installed)
  moreover have "mergeScripts DESIRED_SCRIPTS ?s (bakKey k) = scriptStep ?s (k, v) (bakKey k)"
    using assms(1) by (simp add: desired_local)
  moreover have "scriptStep ?s (k, v) (bakKey k) =
      (if truthy (?s (bakKey k)) then ?s (bakKey k) else Some a)"
    using assms(2-4) by (simp add: scriptStep_bak truthy_def)
  ultimately show ?thesis by (simp add: merged_scripts merged_scripts_twice)
qed

theorem conflict_demotion_witness:
  "orEmpty (scripts (patchPkg (manifest (Some [''build'' \<mapsto> ''A'']) None None))) ''build''
      = Some ''tsc -b && vite build''
   \<and> orEmpty (scripts (patchPkg (manifest (Some [''build'' \<mapsto> ''A'']) None None))) ''_backup_build''
      = Some ''A''
   \<and> scripts (patchPkg (patchPkg (manifest (Some [''build'' \<mapsto> ''A'']) None None)))
      = scripts (patchPkg (manifest (Some [''build'' \<mapsto> ''A'']) None None))"
proof -
  have m: "(''build'', ''tsc -b && vite build'') \<in> set DESIRED_SCRIPTS"
    by (simp add: DESIRED_SCRIPTS_def)
  have s: "orEmpty (scripts (manifest (Some [''build'' \<mapsto> ''A'']) None None)) ''build'' = Some ''A''"
    by (simp add: manifest_def orEmpty_def)
  have b: "orEmpty (scripts (manifest (Some [''build'' \<mapsto> ''A'']) None None)) (bakKey ''build'') = None"
    by (simp add: manifest_def orEmpty_def bakKey_def)
  show ?thesis
    using conflict_demotion [OF m s] b by (simp add: truthy_def bakKey_def)
qed

text \<open>
  C4 as stated fails in two ways: an existing empty command is not demoted (no
  \<^verbatim>\<open>_backup_build\<close> appears), and an existing non-empty \<^verbatim>\<open>_backup_build\<close> is kept, so
  that after the merge it is not the command \<^verbatim>\<open>build\<close> had.
\<close>

theorem conflict_demotion_counterexample:
  "orEmpty (scripts (patchPkg (manifest (Some [''build'' \<mapsto> '''']) None None))) ''_backup_build''
      = None
   \<and> orEmpty (scripts (patchPkg (manifest
         (Some [''build'' \<mapsto> ''A'', ''_backup_build'' \<mapsto> ''Z'']) None None))) ''_backup_build''
      = Some ''Z''"
proof -
  have m: "(''build'', ''tsc -b && vite build'') \<in> set DESIRED_SCRIPTS"
    by (simp add: DESIRED_SCRIPTS_def)
  have k: "''_backup_build'' = bakKey ''build''" by (simp add: bakKey_def)
  show ?thesis
    unfolding merged_scripts k
    by (simp add: desired_local [OF m] scriptStep_bak truthy_def manifest_def orEmpty_def
        bakKey_neq)
qed

lemma desired_key_not_demoted:
  "(k, v) \<in> set DESIRED_SCRIPTS \<Longrightarrow> (n, w) \<in> set DESIRED_SCRIPTS \<Longrightarrow> k \<noteq> bakKey n"
proof -
  assume "(k, v) \<in> set DESIRED_SCRIPTS" "(n, w) \<in> set DESIRED_SCRIPTS"
  then have "k \<in> fst ` set DESIRED_SCRIPTS" "n \<in> set (map fst DESIRED_SCRIPTS)"
    by (auto simp: rev_image_eqI)
  with plain_DESIRED_SCRIPTS show ?thesis
    unfolding plain_def list_all_iff by blast
qed

lemma mergeScripts_empty_as_absent:
  assumes "(k, v) \<in> set DESIRED_SCRIPTS" and "s k = Some []"
  shows "mergeScripts DESIRED_SCRIPTS s = mergeScripts DESIRED_SCRIPTS (s(k := None))"
proof
  fix x
  let ?t = "s(k := None)"
  show "mergeScripts DESIRED_SCRIPTS s x = mergeScripts DESIRED_SCRIPTS ?t x"
  proof (cases "\<exists>n w. (n, w) \<in> set DESIRED_SCRIPTS \<and> (x = n \<or> x = bakKey n)")
    case True
    then obtain n w where nw: "(n, w) \<in> set DESIRED_SCRIPTS" and x: "x = n \<or> x = bakKey n"
      by blast
    have "scriptStep ?t (n, w) x = scriptStep s (n, w) x"
    proof (cases "n = k")
      case True
      have "scriptStep ?t (k, w) k = scriptStep s (k, w) k" by (simp add: scriptStep_key)
      moreover have "scriptStep ?t (k, w) (bakKey k) = scriptStep s (k, w) (bakKey k)"
        using assms(2) bakKey_neq [of k] by (simp add: scriptStep_bak truthy_def)
      ultimately show ?thesis using x True by auto
    next
      case False
      have "k \<noteq> bakKey n" using assms(1) nw by (rule desired_key_not_demoted)
      then have "?t n = s n" "?t (bakKey n) = s (bakKey n)" using False by auto
      then show ?thesis using x by (rule scriptStep_cong)
    qed
    then show ?thesis using nw x by (simp add: desired_local)
  next
    case False
    then have a: "x \<notin> fst ` set DESIRED_SCRIPTS" and b: "x \<notin> bakKey ` fst ` set DESIRED_SCRIPTS"
      by force+
    from a assms(1) have "x \<noteq> k" by (auto simp: rev_image_eqI)
    then show ?thesis using a b by (simp add: mergeScripts_untouched)
  qed
qed

text \<open>
  C10. A desired script whose existing value is the empty string is treated as absent:
  the desired command is installed, the demoted key keeps whatever it had (none is
  created), and the merged scripts are those of the manifest without the key. An
  existing demoted key that holds the empty string is overwritten by a new demotion.
\<close>

theorem empty_script_is_absent:
  assumes "(k, v) \<in> set DESIRED_SCRIPTS"
  shows "(orEmpty (scripts p) k = Some [] \<longrightarrow>
            orEmpty (scripts (patchPkg p)) k = Some v
          \<and> orEmpty (scripts (patchPkg p)) (bakKey k) = orEmpty (scripts p) (bakKey k)
          \<and> orEmpty (scripts (patchPkg p))
              = mergeScripts DESIRED_SCRIPTS ((orEmpty (scripts p))(k := None)))
       \<and> (\<forall>a. orEmpty (scripts p) k = Some a \<and> a \<noteq> [] \<and> a \<noteq> v
                \<and> orEmpty (scripts p) (bakKey k) = Some [] \<longrightarrow>
            orEmpty (scripts (patchPkg p)) k = Some v
          \<and> orEmpty (scripts (patchPkg p)) (bakKey k) = Some a)"
proof -
  let ?s = "orEmpty (scripts p)"
  let ?m = "mergeScripts DESIRED_SCRIPTS ?s"
  have key: "?m k = Some v"
    using assms by (rule desired_installed)
  have bak: "?m (bakKey k) =
      (if truthy (?s k) \<and> ?s k \<noteq> Some v \<and> \<not> truthy (?s (bakKey k)) then ?s k else ?s (bakKey k))"
    using assms by (simp add: desired_local scriptStep_bak)
  have absent: "?m = mergeScripts DESIRED_SCRIPTS (?s(k := None))" if "?s k = Some []"
    using assms that by (rule mergeScripts_empty_as_absent)
  have first: "?m k = Some v \<and> ?m (bakKey k) = ?s (bakKey k)
      \<and> ?m = mergeScripts DESIRED_SCRIPTS (?s(k := None))" if e: "?s k = Some []"
  proof -
    from e have "\<not> truthy (?s k)" by (simp add: truthy_def)
    with bak have "?m (bakKey k) = ?s (bakKey k)" by simp
    with key absent [OF e] show ?thesis by blast
  qed
  have second: "?m k = Some v \<and> ?m (bakKey k) = Some a"
    if "?s k = Some a \<and> a \<noteq> [] \<and> a \<noteq> v \<and> ?s (bakKey k) = Some []" for a
  proof -
    from that have "truthy (?s k)" "?s k \<noteq> Some v" "\<not> truthy (?s (bakKey k))"
      by (simp_all add: truthy_def)
    with bak that have "?m (bakKey k) = Some a" by simp
    with key show ?thesis by blast
  qed
  show ?thesis
    unfolding merged_scripts using first second by blast
qed

theorem empty_script_is_absent_witness:
  "orEmpty (scripts (patchPkg (manifest (Some [''build'' \<mapsto> '''']) None None))) ''build''
      = Some ''tsc -b && vite build''
   \<and> orEmpty (scripts (patchPkg (manifest (Some [''build'' \<mapsto> '''']) None None))) ''_backup_build''
      = None
   \<and> orEmpty (scripts (patchPkg (manifest
         (Some [''build'' \<mapsto> ''A'', ''_backup_build'' \<mapsto> '''']) None None))) ''_backup_build''
      = Some ''A''"
proof -
  have m: "(''build'', ''tsc -b && vite build'') \<in> set DESIRED_SCRIPTS"
    by (simp add: DESIRED_SCRIPTS_def)
  have kb: "bakKey ''build'' = ''_backup_build''" by (simp add: bakKey_def)
  let ?p = "manifest (Some [''build'' \<mapsto> '''']) None None"
  let ?q = "manifest (Some [''build'' \<mapsto> ''A'', ''_backup_build'' \<mapsto> '''']) None None"
  have p1: "orEmpty (scripts ?p) ''build'' = Some []"
    by (simp add: manifest_def orEmpty_def)
  have p2: "orEmpty (scripts ?p) (bakKey ''build'') = None"
    by (simp add: manifest_def orEmpty_def bakKey_def)
  have q1: "orEmpty (scripts ?q) ''build'' = Some ''A'' \<and> ''A'' \<noteq> []
      \<and> ''A'' \<noteq> ''tsc -b && vite build'' \<and> orEmpty (scripts ?q) (bakKey ''build'') = Some []"
    by (simp add: manifest_def orEmpty_def bakKey_def)
  from empty_script_is_absent [OF m, of ?p] p1
  have "orEmpty (scripts (patchPkg ?p)) ''build'' = Some ''tsc -b && vite build''
      \<and> orEmpty (scripts (patchPkg ?p)) (bakKey ''build'') = orEmpty (scripts ?p) (bakKey ''build'')"
    by blast
  with p2 have "orEmpty (scripts (patchPkg ?p)) ''build'' = Some ''tsc -b && vite build''"
    "orEmpty (scripts (patchPkg ?p)) (bakKey ''build'') = None"
    by (blast, metis)
  moreover from empty_script_is_absent [OF m, of ?q] q1
  have "orEmpty (scripts (patchPkg ?q)) (bakKey ''build'') = Some ''A''"
    by blast
  ultimately show ?thesis unfolding kb by (intro conjI)
qed

text \<open>
  C2, as the code has it. No script key is ever deleted. The value a key has after the
  merge is the one it had, or the desired command of that key; the one exception is a
  demoted key \<^verbatim>\<open>_backup_<n>\<close> that held the empty string, which may receive the command
  that the desired script \<open>n\<close> had.
\<close>

theorem script_keys_never_lost:
  assumes "orEmpty (scripts p) k = Some a"
  shows "\<exists>b. orEmpty (scripts (patchPkg p)) k = Some b
          \<and> (b = a \<or> (k, b) \<in> set DESIRED_SCRIPTS
              \<or> (a = [] \<and> (\<exists>n w. k = bakKey n \<and> (n, w) \<in> set DESIRED_SCRIPTS
                              \<and> orEmpty (scripts p) n = Some b)))"
proof -
  let ?s = "orEmpty (scripts p)"
  let ?m = "mergeScripts DESIRED_SCRIPTS ?s"
  consider (key) v where "(k, v) \<in> set DESIRED_SCRIPTS"
    | (bak) n w where "(n, w) \<in> set DESIRED_SCRIPTS" "k = bakKey n"
    | (other) "k \<notin> fst ` set DESIRED_SCRIPTS" "k \<notin> bakKey ` fst ` set DESIRED_SCRIPTS"
    by force
  then have "\<exists>b. ?m k = Some b
          \<and> (b = a \<or> (k, b) \<in> set DESIRED_SCRIPTS
              \<or> (a = [] \<and> (\<exists>n w. k = bakKey n \<and> (n, w) \<in> set DESIRED_SCRIPTS \<and> ?s n = Some b)))"
  proof cases
    case key
    then have "?m k = Some v" by (rule desired_installed)
    with key show ?thesis by blast
  next
    case bak
    have m: "?m k = (if truthy (?s n) \<and> ?s n \<noteq> Some w \<and> \<not> truthy (?s k) then ?s n else ?s k)"
      using bak by (simp add: desired_local scriptStep_bak)
    show ?thesis
    proof (cases "truthy (?s n) \<and> ?s n \<noteq> Some w \<and> \<not> truthy (?s k)")
      case True
      then obtain b where b: "?s n = Some b" by (auto simp: truthy_def split: option.splits)
      from True assms have "a = []" by (simp add: truthy_def)
      with m True b bak show ?thesis by auto
    next
      case False
      with m assms show ?thesis by auto
    qed
  next
    case other
    then have "?m k = ?s k" by (rule mergeScripts_untouched)
    with assms show ?thesis by simp
  qed
  then show ?thesis by (simp add: merged_scripts)
qed

theorem script_keys_never_lost_witness:
  "\<exists>b. orEmpty (scripts (patchPkg (manifest (Some [''test'' \<mapsto> ''jest'']) None None))) ''test'' = Some b
     \<and> (b = ''jest'' \<or> (''test'', b) \<in> set DESIRED_SCRIPTS
         \<or> (''jest'' = [] \<and> (\<exists>n w. ''test'' = bakKey n \<and> (n, w) \<in> set DESIRED_SCRIPTS
               \<and> orEmpty (scripts (manifest (Some [''test'' \<mapsto> ''jest'']) None None)) n = Some b)))"
proof -
  have "orEmpty (scripts (manifest (Some [''test'' \<mapsto> ''jest'']) None None)) ''test'' = Some ''jest''"
    by (simp add: manifest_def orEmpty_def)
  then show ?thesis by (rule script_keys_never_lost)
qed

text \<open>
  C2 as stated fails: the key \<^verbatim>\<open>_backup_build\<close>, present with the empty string, holds
  after the merge the old command of \<^verbatim>\<open>build\<close>, which is neither its original value nor
  a desired value (no script of that name is desired), and it has no demoted counterpart.
\<close>

theorem script_keys_never_lost_counterexample:
  "orEmpty (scripts (manifest (Some [''build'' \<mapsto> ''A'', ''_backup_build'' \<mapsto> '''']) None None))
      ''_backup_build'' = Some ''''
   \<and> orEmpty (scripts (patchPkg (manifest
        (Some [''build'' \<mapsto> ''A'', ''_backup_build'' \<mapsto> '''']) None None))) ''_backup_build''
      = Some ''A''
   \<and> ''_backup_build'' \<notin> fst ` set DESIRED_SCRIPTS
   \<and> orEmpty (scripts (patchPkg (manifest
        (Some [''build'' \<mapsto> ''A'', ''_backup_build'' \<mapsto> '''']) None None))) (bakKey ''_backup_build'')
      = None"
proof -
  let ?s = "[''build'' \<mapsto> ''A'', ''_backup_build'' \<mapsto> '''']"
  have m: "(''build'', ''tsc -b && vite build'') \<in> set DESIRED_SCRIPTS"
    by (simp add: DESIRED_SCRIPTS_def)
  have kb: "bakKey ''build'' = ''_backup_build''" by (simp add: bakKey_def)
  have "mergeScripts DESIRED_SCRIPTS ?s (bakKey ''build'') = Some ''A''"
    by (simp add: desired_local [OF m] scriptStep_bak truthy_def bakKey_neq)
  then have a: "mergeScripts DESIRED_SCRIPTS ?s ''_backup_build'' = Some ''A''"
    by (simp only: kb)
  have "mergeScripts DESIRED_SCRIPTS ?s (bakKey ''_backup_build'')
      = ?s (bakKey ''_backup_build'')"
    by (rule mergeScripts_untouched) (simp_all add: DESIRED_SCRIPTS_def bakKey_def)
  then have b: "mergeScripts DESIRED_SCRIPTS ?s (bakKey ''_backup_build'') = None"
    by (simp add: bakKey_def)
  have c: "''_backup_build'' \<notin> fst ` set DESIRED_SCRIPTS"
    by (simp add: DESIRED_SCRIPTS_def)
  have d: "orEmpty (scripts (manifest (Some ?s) None None)) = ?s"
    by (simp add: manifest_def orEmpty_def)
  show ?thesis
    unfolding merged_scripts d using a b c by simp
qed


subsection \<open>Dependencies\<close>

lemma depStep_other: "x \<noteq> dep \<Longrightarrow> depStep deps dev (dep, ver) x = dev x"
  by (simp add: depStep_def)

lemma depStep_at:
  "depStep deps dev (dep, ver) dep =
     (if truthy (dev dep) \<or> truthy (orEmpty deps dep) then dev dep else Some ver)"
  by (simp add: depStep_def orEmpty_def truthy_def split: option.splits)

lemma mergeDeps_untouched: "x \<notin> fst ` set ds \<Longrightarrow> mergeDeps deps ds dev x = dev x"
proof (induction ds arbitrary: dev)
  case Nil
  then show ?case by simp
next
  case (Cons dv ds)
  obtain d v where dv: "dv = (d, v)" by (cases dv)
  from Cons.prems dv have "x \<noteq> d" "x \<notin> fst ` set ds" by auto
  then show ?case by (simp add: dv Cons.IH depStep_other)
qed

lemma mergeDeps_local:
  "distinct (map fst ds) \<Longrightarrow> (n, ver) \<in> set ds \<Longrightarrow>
   mergeDeps deps ds dev n = depStep deps dev (n, ver) n"
proof (induction ds arbitrary: dev)
  case Nil
  then show ?case by simp
next
  case (Cons dv ds)
  obtain d v where dv: "dv = (d, v)" by (cases dv)
  show ?case
  proof (cases "d = n")
    case True
    with Cons.prems dv have "n \<notin> fst ` set ds" by auto
    moreover from this Cons.prems(2) dv True have "v = ver" by (auto simp: rev_image_eqI)
    ultimately show ?thesis by (simp add: dv True mergeDeps_untouched)
  next
    case False
    with Cons.prems dv have "distinct (map fst ds)" "(n, ver) \<in> set ds" by auto
    then have "mergeDeps deps ds (depStep deps dev dv) n = depStep deps (depStep deps dev dv) (n, ver) n"
      by (rule Cons.IH)
    also have "\<dots> = depStep deps dev (n, ver) n"
      using False by (simp add: depStep_at dv depStep_other)
    finally show ?thesis by simp
  qed
qed

lemma distinct_DESIRED_DEVDEPS: "distinct (map fst DESIRED_DEVDEPS)"
  by (simp add: DESIRED_DEVDEPS_def)

lemma merged_devDependencies:
  "orEmpty (devDependencies (patchPkg p))
     = mergeDeps (dependencies p) DESIRED_DEVDEPS (orEmpty (devDependencies p))"
  by (simp add: patchPkg_def orEmpty_def)

text \<open>
  C8, as the code has it. A desired dependency is written, into \<^verbatim>\<open>devDependencies\<close> only,
  exactly when neither map declares the name with a non-empty version; a non-empty
  declaration is left as it is, and so is every name that is not desired. The
  \<^verbatim>\<open>dependencies\<close> map is never changed.
\<close>

theorem dependency_keep_existing:
  assumes "(n, ver) \<in> set DESIRED_DEVDEPS"
  shows "orEmpty (devDependencies (patchPkg p)) n =
           (if truthy (orEmpty (devDependencies p) n) \<or> truthy (orEmpty (dependencies p) n)
            then orEmpty (devDependencies p) n else Some ver)
       \<and> dependencies (patchPkg p) = dependencies p
       \<and> (\<forall>x. x \<notin> fst ` set DESIRED_DEVDEPS \<longrightarrow>
             orEmpty (devDependencies (patchPkg p)) x = orEmpty (devDependencies p) x)"
proof -
  have "orEmpty (devDependencies (patchPkg p)) n
      = depStep (dependencies p) (orEmpty (devDependencies p)) (n, ver) n"
    unfolding merged_devDependencies
    using distinct_DESIRED_DEVDEPS assms by (rule mergeDeps_local)
  moreover have "dependencies (patchPkg p) = dependencies p"
    by (simp add: patchPkg_def)
  ultimately show ?thesis
    by (simp add: depStep_at merged_devDependencies mergeDeps_untouched)
qed

theorem dependency_keep_existing_witness:
  "orEmpty (devDependencies (patchPkg (manifest None (Some [''vite'' \<mapsto> ''^4.0.0'']) None))) ''vite''
     = None
   \<and> orEmpty (devDependencies (patchPkg (manifest None None (Some [''vite'' \<mapsto> ''^4.0.0''])))) ''vite''
     = Some ''^4.0.0''
   \<and> orEmpty (devDependencies (patchPkg (manifest None None None))) ''vite'' = Some ''^5.4.2''
   \<and> dependencies (patchPkg (manifest None (Some [''vite'' \<mapsto> ''^4.0.0'']) None))
     = Some [''vite'' \<mapsto> ''^4.0.0'']"
proof -
  have m: "(''vite'', ''^5.4.2'') \<in> set DESIRED_DEVDEPS"
    by (simp add: DESIRED_DEVDEPS_def)
  show ?thesis
    using dependency_keep_existing [OF m, of "manifest None (Some [''vite'' \<mapsto> ''^4.0.0'']) None"]
      dependency_keep_existing [OF m, of "manifest None None (Some [''vite'' \<mapsto> ''^4.0.0''])"]
      dependency_keep_existing [OF m, of "manifest None None None"]
    by (simp add: manifest_def orEmpty_def truthy_def)
qed

text \<open>
  C8 as stated fails: a name that is present with the empty version (which npm reads as
  "any version") is overwritten in \<^verbatim>\<open>devDependencies\<close>, and is inserted there although
  \<^verbatim>\<open>dependencies\<close> declares it.
\<close>

theorem dependency_keep_existing_counterexample:
  "orEmpty (devDependencies (manifest None None (Some [''vite'' \<mapsto> '''']))) ''vite'' = Some ''''
   \<and> orEmpty (devDependencies (patchPkg (manifest None None (Some [''vite'' \<mapsto> ''''])))) ''vite''
     = Some ''^5.4.2''
   \<and> orEmpty (dependencies (manifest None (Some [''vite'' \<mapsto> '''']) None)) ''vite'' = Some ''''
   \<and> orEmpty (devDependencies (patchPkg (manifest None (Some [''vite'' \<mapsto> '''']) None))) ''vite''
     = Some ''^5.4.2''"
proof -
  have m: "(''vite'', ''^5.4.2'') \<in> set DESIRED_DEVDEPS"
    by (simp add: DESIRED_DEVDEPS_def)
  have "mergeDeps deps DESIRED_DEVDEPS dev ''vite'' = depStep deps dev (''vite'', ''^5.4.2'') ''vite''"
    for deps dev
    using distinct_DESIRED_DEVDEPS m by (rule mergeDeps_local)
  then show ?thesis
    unfolding merged_devDependencies
    by (simp add: depStep_at manifest_def orEmpty_def truthy_def)
qed

section \<open>Properties of the file operations\<close>

lemma lookup_place: "place p n t = Some t' \<Longrightarrow> lookup p t' = Some n"
proof (induction p n t arbitrary: t' rule: place.induct)
  case (4 x y p n es)
  then show ?case
    by (auto simp: update_conv' split: option.splits)
qed (auto simp: update_conv')

lemma lookup_writeFile: "writeFile p c t = Some t' \<Longrightarrow> lookup p t' = Some (File c)"
  by (auto simp: writeFile_def lookup_place split: option.splits node.splits)

lemma lookup_rootMap: "lookup (x # p) t = (case rootMap t x of None \<Rightarrow> None | Some c \<Rightarrow> lookup p c)"
  by (cases t) (simp_all add: rootMap_def)

lemma exists_UI_SRC: "exists UI t \<Longrightarrow> exists SRC t"
  by (cases t) (auto simp: exists_def UI_def SRC_def split: option.splits)

lemma moveOne_effect:
  assumes "lookup SRC (tree w) = Some (Dir cur)" and "map_of cur ''ui'' = Some (Dir acc)"
    and "map_of cur name = Some c" and "name \<noteq> ''ui''"
  shows "\<exists>w' cur'. moveOne env name w = (Inr (), w')
     \<and> lookup SRC (tree w') = Some (Dir cur')
     \<and> map_of cur' = ((map_of cur)(name := None))(''ui'' \<mapsto> Dir (AList.update name c acc))
     \<and> (\<forall>x. x \<noteq> ''src'' \<longrightarrow> rootMap (tree w') x = rootMap (tree w) x)
     \<and> console w' = console w @ [Moved name]"
proof -
  obtain rs where t: "tree w = Dir rs" and s: "map_of rs ''src'' = Some (Dir cur)"
    using assms(1) by (cases "tree w") (auto simp: SRC_def split: option.splits)
  show ?thesis
  proof (cases "rename_refused env (SRC @ [name])")
    case False
    then show ?thesis using t s assms(2-4)
      by (simp add: moveOne_def rename_def cp_def SRC_def UI_def update_conv' delete_conv' say_def rootMap_def fun_upd_twist)
  next
    case True
    then show ?thesis using t s assms(2-4)
      by (simp add: moveOne_def rename_def cp_def SRC_def UI_def update_conv' delete_conv' say_def rootMap_def fun_upd_twist)
  qed
qed

lemma moveItems_effect:
  assumes "lookup SRC (tree w) = Some (Dir cur)" and "map_of cur ''ui'' = Some (Dir acc)"
    and "distinct items" and "''ui'' \<notin> set items"
    and "\<forall>n\<in>set items. map_of cur n \<noteq> None"
  shows "\<exists>w' cur' acc'. moveItems env items w = (Inr (), w')
     \<and> lookup SRC (tree w') = Some (Dir cur')
     \<and> map_of cur' ''ui'' = Some (Dir acc')
     \<and> (\<forall>n. n \<noteq> ''ui'' \<longrightarrow>
           map_of cur' n = (if n \<in> set items \<and> n \<noteq> ''electron'' then None else map_of cur n))
     \<and> (\<forall>n. map_of acc' n = (if n \<in> set items \<and> n \<noteq> ''electron'' then map_of cur n else map_of acc n))
     \<and> (\<forall>x. x \<noteq> ''src'' \<longrightarrow> rootMap (tree w') x = rootMap (tree w) x)"
  using assms
proof (induction items arbitrary: w cur acc)
  case Nil
  then show ?case by auto
next
  case (Cons name items)
  show ?case
  proof (cases "name = ''electron''")
    case True
    from Cons.prems have "\<exists>w' cur' acc'. moveItems env items w = (Inr (), w')
     \<and> lookup SRC (tree w') = Some (Dir cur')
     \<and> map_of cur' ''ui'' = Some (Dir acc')
     \<and> (\<forall>n. n \<noteq> ''ui'' \<longrightarrow>
           map_of cur' n = (if n \<in> set items \<and> n \<noteq> ''electron'' then None else map_of cur n))
     \<and> (\<forall>n. map_of acc' n = (if n \<in> set items \<and> n \<noteq> ''electron'' then map_of cur n else map_of acc n))
     \<and> (\<forall>x. x \<noteq> ''src'' \<longrightarrow> rootMap (tree w') x = rootMap (tree w) x)"
      by (intro Cons.IH) auto
    then show ?thesis using True by auto
  next
    case False
    from Cons.prems obtain c where c: "map_of cur name = Some c" by auto
    from Cons.prems have nu: "name \<noteq> ''ui''" by auto
    from moveOne_effect [OF Cons.prems(1,2) c nu, of env]
    obtain w1 cur1 where m: "moveOne env name w = (Inr (), w1)"
      and l1: "lookup SRC (tree w1) = Some (Dir cur1)"
      and c1: "map_of cur1 = ((map_of cur)(name := None))(''ui'' \<mapsto> Dir (AList.update name c acc))"
      and r1: "\<forall>x. x \<noteq> ''src'' \<longrightarrow> rootMap (tree w1) x = rootMap (tree w) x"
      by blast
    have u1: "map_of cur1 ''ui'' = Some (Dir (AList.update name c acc))" by (simp add: c1)
    have p1: "\<forall>n\<in>set items. map_of cur1 n \<noteq> None"
      using Cons.prems(3,4,5) by (auto simp: c1)
    from Cons.prems have d: "distinct items" "''ui'' \<notin> set items" by auto
    from Cons.IH [OF l1 u1 d p1]
    obtain w' cur' acc' where a: "moveItems env items w1 = (Inr (), w')"
      and b: "lookup SRC (tree w') = Some (Dir cur')"
      and e: "map_of cur' ''ui'' = Some (Dir acc')"
      and f: "\<forall>n. n \<noteq> ''ui'' \<longrightarrow>
           map_of cur' n = (if n \<in> set items \<and> n \<noteq> ''electron'' then None else map_of cur1 n)"
      and g: "\<forall>n. map_of acc' n = (if n \<in> set items \<and> n \<noteq> ''electron'' then map_of cur1 n
                 else map_of (AList.update name c acc) n)"
      and h: "\<forall>x. x \<noteq> ''src'' \<longrightarrow> rootMap (tree w') x = rootMap (tree w1) x"
      by blast
    have "moveItems env (name # items) w = (Inr (), w')" using False m a by simp
    moreover have "\<forall>n. n \<noteq> ''ui'' \<longrightarrow>
           map_of cur' n = (if n \<in> set (name # items) \<and> n \<noteq> ''electron'' then None else map_of cur n)"
      using f False by (auto simp: c1)
    moreover have "\<forall>n. map_of acc' n =
        (if n \<in> set (name # items) \<and> n \<noteq> ''electron'' then map_of cur n else map_of acc n)"
      using g False c Cons.prems(3,4) by (auto simp: c1 update_conv')
    moreover have "\<forall>x. x \<noteq> ''src'' \<longrightarrow> rootMap (tree w') x = rootMap (tree w) x"
      using h r1 by simp
    ultimately show ?thesis using b e by blast
  qed
qed

lemma mkdir_UI:
  assumes "lookup SRC t = Some (Dir es)" and "map_of es ''ui'' = None"
  shows "\<exists>t' cur. ensureDir UI t = Some t' \<and> lookup SRC t' = Some (Dir cur)
     \<and> map_of cur = (map_of es)(''ui'' \<mapsto> Dir [])
     \<and> (\<forall>x. x \<noteq> ''src'' \<longrightarrow> rootMap t' x = rootMap t x)"
proof -
  obtain rs where t: "t = Dir rs" and s: "map_of rs ''src'' = Some (Dir es)"
    using assms(1) by (cases t) (auto simp: SRC_def split: option.splits)
  show ?thesis using t s assms(2)
    by (simp add: ensureDir_def exists_def UI_def SRC_def update_conv' rootMap_def)
qed

lemma not_exists_UI:
  "lookup SRC t = Some (Dir es) \<Longrightarrow> exists UI t = (map_of es ''ui'' \<noteq> None)"
  by (cases t) (auto simp: exists_def UI_def SRC_def split: option.splits)

lemma lookup_SRC_child:
  "lookup SRC t = Some (Dir cur) \<Longrightarrow> lookup (SRC @ [n]) t = map_of cur n"
  by (cases t) (auto simp: SRC_def split: option.splits)

lemma lookup_UI_child:
  "lookup SRC t = Some (Dir cur) \<Longrightarrow> map_of cur ''ui'' = Some (Dir acc) \<Longrightarrow>
   lookup (UI @ [n]) t = map_of acc n"
  by (cases t) (auto simp: SRC_def UI_def split: option.splits)

lemma lookup_append:
  "lookup (p @ q) t = (case lookup p t of None \<Rightarrow> None | Some c \<Rightarrow> lookup q c)"
proof (induction p arbitrary: t)
  case Nil
  then show ?case by simp
next
  case (Cons x p)
  then show ?case by (cases t) (auto split: option.splits)
qed

lemma tree_say [simp]: "tree (say e w) = tree w"
  by (simp add: say_def)

text \<open>
  C6, as the code has it. When \<^verbatim>\<open>src\<close> is a directory (which lists each name once) and
  \<^verbatim>\<open>src/ui\<close> does not exist, the relocation returns, whether or not the platform renames,
  and afterwards: every entry
  of \<^verbatim>\<open>src\<close> named \<^verbatim>\<open>electron\<close> is where it was, with the same content; every other entry
  is gone from \<^verbatim>\<open>src\<close> and lies under \<^verbatim>\<open>src/ui\<close> with the same content (the whole subtree);
  \<^verbatim>\<open>src\<close> holds nothing but \<^verbatim>\<open>electron\<close> and the new \<^verbatim>\<open>ui\<close>, and \<^verbatim>\<open>src/ui\<close> nothing but what
  was moved; nothing outside \<^verbatim>\<open>src\<close> changes.
\<close>

theorem relocation_complete:
  assumes "lookup SRC (tree w) = Some (Dir es)" and "distinct (map fst es)"
    and "\<not> exists UI (tree w)"
  shows "\<exists>w'. moveSrcToUi env w = (Inr (), w')
     \<and> (\<forall>n c. map_of es n = Some c \<longrightarrow>
          (if n = ''electron'' then lookup (SRC @ [n]) (tree w') = Some c
           else lookup (SRC @ [n]) (tree w') = None \<and> lookup (UI @ [n]) (tree w') = Some c))
     \<and> (\<forall>n. lookup (SRC @ [n]) (tree w') \<noteq> None \<longrightarrow> n = ''electron'' \<or> n = ''ui'')
     \<and> (\<forall>n. lookup (UI @ [n]) (tree w') \<noteq> None \<longrightarrow> n \<noteq> ''electron'' \<and> map_of es n \<noteq> None)
     \<and> (\<forall>x p. x \<noteq> ''src'' \<longrightarrow> lookup (x # p) (tree w') = lookup (x # p) (tree w))"
proof -
  from assms(1,3) have noui: "map_of es ''ui'' = None" by (simp add: not_exists_UI)
  have ex: "exists SRC (tree w)" using assms(1) by (simp add: exists_def)
  have rd: "readdir SRC (tree w) = Some (map fst es)" using assms(1) by (simp add: readdir_def)
  show ?thesis
  proof (cases "list_ex (\<lambda>name. name \<noteq> ''electron'') (map fst es)")
    case False
    then have all: "\<forall>n\<in>fst ` set es. n = ''electron''" by (auto simp: list_ex_iff)
    have m: "moveSrcToUi env w = (Inr (), say NothingToMove w)"
      using ex assms(3) rd False by (simp add: moveSrcToUi_def)
    have k: "map_of es n \<noteq> None \<Longrightarrow> n = ''electron''" for n
      using all by (auto simp: map_of_eq_None_iff)
    have u: "lookup (UI @ [n]) (tree w) = None" for n
      using assms(1) noui by (cases "tree w") (auto simp: SRC_def UI_def split: option.splits)
    show ?thesis
      unfolding m using k u by (auto simp: lookup_SRC_child [OF assms(1)])
  next
    case True
    from mkdir_UI [OF assms(1) noui]
    obtain t1 cur where e: "ensureDir UI (tree w) = Some t1"
      and l1: "lookup SRC t1 = Some (Dir cur)"
      and c1: "map_of cur = (map_of es)(''ui'' \<mapsto> Dir [])"
      and r1: "\<forall>x. x \<noteq> ''src'' \<longrightarrow> rootMap t1 x = rootMap (tree w) x"
      by blast
    let ?w1 = "w\<lparr>tree := t1\<rparr>"
    have l1': "lookup SRC (tree ?w1) = Some (Dir cur)" using l1 by simp
    have u1: "map_of cur ''ui'' = Some (Dir [])" by (simp add: c1)
    have ni: "''ui'' \<notin> set (map fst es)" using noui by (simp add: map_of_eq_None_iff)
    have p1: "\<forall>n\<in>set (map fst es). map_of cur n \<noteq> None"
      by (auto simp: c1 dest!: weak_map_of_SomeI)
    from moveItems_effect [OF l1' u1 assms(2) ni p1, of env]
    obtain w2 cur' acc' where a: "moveItems env (map fst es) ?w1 = (Inr (), w2)"
      and b: "lookup SRC (tree w2) = Some (Dir cur')"
      and c: "map_of cur' ''ui'' = Some (Dir acc')"
      and f: "\<forall>n. n \<noteq> ''ui'' \<longrightarrow>
           map_of cur' n = (if n \<in> set (map fst es) \<and> n \<noteq> ''electron'' then None else map_of cur n)"
      and g: "\<forall>n. map_of acc' n = (if n \<in> set (map fst es) \<and> n \<noteq> ''electron'' then map_of cur n
                 else map_of [] n)"
      and h: "\<forall>x. x \<noteq> ''src'' \<longrightarrow> rootMap (tree w2) x = rootMap (tree ?w1) x"
      by blast
    have m: "moveSrcToUi env w = (Inr (), say MovedAll w2)"
      using ex assms(3) rd True e a by (simp add: moveSrcToUi_def)
    have inset: "n \<in> fst ` set es \<longleftrightarrow> map_of es n \<noteq> None" for n
      by (simp add: map_of_eq_None_iff)
    have s: "lookup (SRC @ [n]) (tree w2) = map_of cur' n" for n
      using b by (rule lookup_SRC_child)
    have u: "lookup (UI @ [n]) (tree w2) = map_of acc' n" for n
      using b c by (rule lookup_UI_child)
    have one: "\<forall>n c. map_of es n = Some c \<longrightarrow>
          (if n = ''electron'' then lookup (SRC @ [n]) (tree w2) = Some c
           else lookup (SRC @ [n]) (tree w2) = None \<and> lookup (UI @ [n]) (tree w2) = Some c)"
    proof (intro allI impI)
      fix n c assume n: "map_of es n = Some c"
      then have "n \<noteq> ''ui''" using noui by auto
      with n f g show "if n = ''electron'' then lookup (SRC @ [n]) (tree w2) = Some c
           else lookup (SRC @ [n]) (tree w2) = None \<and> lookup (UI @ [n]) (tree w2) = Some c"
        by (auto simp: s u inset c1)
    qed
    have two: "\<forall>n. lookup (SRC @ [n]) (tree w2) \<noteq> None \<longrightarrow> n = ''electron'' \<or> n = ''ui''"
    proof (intro allI impI)
      fix n assume "lookup (SRC @ [n]) (tree w2) \<noteq> None"
      then have "map_of cur' n \<noteq> None" by (simp add: s)
      with spec [OF f, of n] show "n = ''electron'' \<or> n = ''ui''"
        by (cases "map_of es n") (auto simp: inset c1 split: if_splits)
    qed
    have three: "\<forall>n. lookup (UI @ [n]) (tree w2) \<noteq> None \<longrightarrow> n \<noteq> ''electron'' \<and> map_of es n \<noteq> None"
    proof (intro allI impI)
      fix n assume "lookup (UI @ [n]) (tree w2) \<noteq> None"
      then have "map_of acc' n \<noteq> None" by (simp add: u)
      with spec [OF g, of n] show "n \<noteq> ''electron'' \<and> map_of es n \<noteq> None"
        by (cases "map_of es n") (auto simp: inset c1 split: if_splits)
    qed
    have four: "\<forall>x p. x \<noteq> ''src'' \<longrightarrow> lookup (x # p) (tree w2) = lookup (x # p) (tree w)"
      using h r1 by (simp add: lookup_rootMap)
    show ?thesis unfolding m using one two three four by simp
  qed
qed


theorem relocation_complete_witness:
  "\<exists>w'. moveSrcToUi (exampleEnv True) exampleWorld = (Inr (), w')
     \<and> lookup [''src'', ''ui'', ''a.ts''] (tree w') = Some (File ''A'')
     \<and> lookup [''src'', ''ui'', ''b.css''] (tree w') = Some (File ''B'')
     \<and> lookup [''src'', ''a.ts''] (tree w') = None
     \<and> lookup [''src'', ''b.css''] (tree w') = None
     \<and> lookup [''src'', ''electron'', ''c.ts''] (tree w') = Some (File ''C'')"
proof -
  have l: "lookup SRC (tree exampleWorld) = Some (Dir exampleSrc)"
    by (simp add: exampleWorld_def SRC_def)
  have d: "distinct (map fst exampleSrc)" by (simp add: exampleSrc_def)
  have u: "\<not> exists UI (tree exampleWorld)"
    by (simp add: exampleWorld_def exampleSrc_def exists_def UI_def)
  from relocation_complete [OF l d u, of "exampleEnv True"]
  obtain w' where r: "moveSrcToUi (exampleEnv True) exampleWorld = (Inr (), w')
     \<and> (\<forall>n c. map_of exampleSrc n = Some c \<longrightarrow>
          (if n = ''electron'' then lookup (SRC @ [n]) (tree w') = Some c
           else lookup (SRC @ [n]) (tree w') = None \<and> lookup (UI @ [n]) (tree w') = Some c))
     \<and> (\<forall>n. lookup (SRC @ [n]) (tree w') \<noteq> None \<longrightarrow> n = ''electron'' \<or> n = ''ui'')
     \<and> (\<forall>n. lookup (UI @ [n]) (tree w') \<noteq> None \<longrightarrow> n \<noteq> ''electron'' \<and> map_of exampleSrc n \<noteq> None)
     \<and> (\<forall>x p. x \<noteq> ''src'' \<longrightarrow> lookup (x # p) (tree w') = lookup (x # p) (tree exampleWorld))" ..
  note m = r [THEN conjunct1]
  note a = r [THEN conjunct2, THEN conjunct1]
  have ma: "map_of exampleSrc ''a.ts'' = Some (File ''A'')" by (simp add: exampleSrc_def)
  have mb: "map_of exampleSrc ''b.css'' = Some (File ''B'')" by (simp add: exampleSrc_def)
  have me: "map_of exampleSrc ''electron'' = Some (Dir [(''c.ts'', File ''C'')])"
    by (simp add: exampleSrc_def)
  from a [rule_format, OF ma]
  have 1: "lookup [''src'', ''a.ts''] (tree w') = None"
    "lookup [''src'', ''ui'', ''a.ts''] (tree w') = Some (File ''A'')"
    by (simp_all add: SRC_def UI_def)
  from a [rule_format, OF mb]
  have 2: "lookup [''src'', ''b.css''] (tree w') = None"
    "lookup [''src'', ''ui'', ''b.css''] (tree w') = Some (File ''B'')"
    by (simp_all add: SRC_def UI_def)
  from a [rule_format, OF me]
  have "lookup [''src'', ''electron''] (tree w') = Some (Dir [(''c.ts'', File ''C'')])"
    by (simp add: SRC_def)
  then have 3: "lookup [''src'', ''electron'', ''c.ts''] (tree w') = Some (File ''C'')"
    using lookup_append [of "[''src'', ''electron'']" "[''c.ts'']" "tree w'"] by simp
  from m 1 2 3 show ?thesis by (intro exI [of _ w'] conjI)
qed

text \<open>
  C6 as stated fails when \<^verbatim>\<open>src/ui\<close> exists before the call: the call returns without
  moving anything, so \<^verbatim>\<open>src/a.ts\<close>, which is not excluded, is still in \<^verbatim>\<open>src\<close> and is not
  under \<^verbatim>\<open>src/ui\<close>.
\<close>

theorem relocation_complete_counterexample:
  "moveSrcToUi (exampleEnv False) migratedWorld = (Inr (), say SkipMove migratedWorld)
   \<and> lookup [''src'', ''a.ts''] (tree (say SkipMove migratedWorld)) = Some (File ''A'')
   \<and> lookup [''src'', ''ui'', ''a.ts''] (tree (say SkipMove migratedWorld)) = None"
  by (simp add: moveSrcToUi_def migratedWorld_def exists_def SRC_def UI_def say_def)

text \<open>
  C9. The relocation changes nothing on disk when \<^verbatim>\<open>src/ui\<close> exists, and when every entry
  of \<^verbatim>\<open>src\<close> is named \<^verbatim>\<open>electron\<close> (also when \<^verbatim>\<open>src\<close> is empty): it returns normally, having
  printed one line, and the tree is the one before the call.
\<close>

theorem relocation_noop:
  "(exists UI (tree w) \<longrightarrow> moveSrcToUi env w = (Inr (), say SkipMove w))
   \<and> (\<forall>es. lookup SRC (tree w) = Some (Dir es) \<and> list_all (\<lambda>name. name = ''electron'') (map fst es) \<longrightarrow>
         moveSrcToUi env w = (Inr (), say NothingToMove w))
   \<and> tree (say SkipMove w) = tree w \<and> tree (say NothingToMove w) = tree w"
proof -
  have "moveSrcToUi env w = (Inr (), say SkipMove w)" if "exists UI (tree w)"
    using that exists_UI_SRC [OF that] by (simp add: moveSrcToUi_def)
  moreover have "moveSrcToUi env w = (Inr (), say NothingToMove w)"
    if "lookup SRC (tree w) = Some (Dir es) \<and> list_all (\<lambda>name. name = ''electron'') (map fst es)" for es
  proof -
    from that have l: "lookup SRC (tree w) = Some (Dir es)"
      and a: "list_all (\<lambda>name. name = ''electron'') (map fst es)" by auto
    from a have "''ui'' \<notin> fst ` set es" by (auto simp: list_all_iff)
    then have "map_of es ''ui'' = None" by (simp add: map_of_eq_None_iff)
    with l have "\<not> exists UI (tree w)" by (simp add: not_exists_UI)
    moreover have "exists SRC (tree w)" using l by (simp add: exists_def)
    moreover have "readdir SRC (tree w) = Some (map fst es)" using l by (simp add: readdir_def)
    moreover have "\<not> list_ex (\<lambda>name. name \<noteq> ''electron'') (map fst es)"
      using a by (auto simp: list_all_iff list_ex_iff)
    ultimately show ?thesis by (simp add: moveSrcToUi_def)
  qed
  ultimately show ?thesis by (simp only: tree_say) blast
qed


theorem relocation_noop_witness:
  "moveSrcToUi (exampleEnv False) doneWorld = (Inr (), say SkipMove doneWorld)
   \<and> moveSrcToUi (exampleEnv False) electronOnlyWorld = (Inr (), say NothingToMove electronOnlyWorld)
   \<and> tree (say SkipMove doneWorld) = tree doneWorld
   \<and> tree (say NothingToMove electronOnlyWorld) = tree electronOnlyWorld"
proof -
  have 1: "exists UI (tree doneWorld)"
    by (simp add: doneWorld_def exists_def UI_def)
  have 2: "lookup SRC (tree electronOnlyWorld) = Some (Dir [(''electron'', Dir [(''main.ts'', File ''M'')])])
      \<and> list_all (\<lambda>name. name = ''electron'')
          (map fst [(''electron'', Dir [(''main.ts'', File ''M'')])])"
    by (simp add: electronOnlyWorld_def SRC_def)
  note a = relocation_noop [of doneWorld "exampleEnv False", THEN conjunct1, THEN mp, OF 1]
  note b = relocation_noop [of electronOnlyWorld "exampleEnv False", THEN conjunct2,
      THEN conjunct1, THEN spec, THEN mp, OF 2]
  from a b show ?thesis by simp
qed

lemma safeWrite_written:
  "safeWrite p content force w = (Inr b, w') \<Longrightarrow> lookup p (tree w') = Some (File content)"
  by (auto simp: safeWrite_def writeOut_def readFile_def exists_def lookup_writeFile
      split: if_splits option.splits node.splits)


lemma safeWrite_tree_cases:
  "safeWrite p content force w = (r, w') \<Longrightarrow> r = Inr False \<Longrightarrow> tree w' = tree w"
  by (auto simp: safeWrite_def writeOut_def split: if_splits option.splits)

text \<open>
  C5. A write without \<^verbatim>\<open>force\<close> of the text that the file already holds returns
  \<^verbatim>\<open>false\<close>, prints \<^verbatim>\<open>Unchanged\<close> and leaves the whole tree as it is: nothing is written and
  no backup is made. After any write of \<open>content\<close> to \<open>p\<close> that returned, the file
  holds \<open>content\<close>, so the same write again is this case.
\<close>

theorem unchanged_write:
  assumes "lookup p (tree w) = Some (File content)"
  shows "safeWrite p content False w = (Inr False, say (Unchanged p) w)
       \<and> tree (say (Unchanged p) w) = tree w
       \<and> (\<forall>force b w0 w1. safeWrite p content force w0 = (Inr b, w1) \<longrightarrow>
             safeWrite p content False w1 = (Inr False, say (Unchanged p) w1))"
proof -
  have *: "safeWrite p content False v = (Inr False, say (Unchanged p) v)"
    if "lookup p (tree v) = Some (File content)" for v
    using that by (simp add: safeWrite_def exists_def readFile_def)
  from * [OF assms] * safeWrite_written show ?thesis by (simp only: tree_say) blast
qed

theorem unchanged_write_witness:
  "safeWrite [''index.html''] ''old'' False indexWorld
     = (Inr False, say (Unchanged [''index.html'']) indexWorld)
   \<and> tree (say (Unchanged [''index.html'']) indexWorld) = Dir [(''index.html'', File ''old'')]"
proof -
  have "lookup [''index.html''] (tree indexWorld) = Some (File ''old'')"
    by (simp add: indexWorld_def)
  from unchanged_write [OF this] show ?thesis by (simp add: indexWorld_def)
qed

text \<open>
  C1 on the code. A forced write of a new text over an existing \<^verbatim>\<open>index.html\<close> overwrites
  it and makes no backup: the tree afterwards holds the one file. The same write
  without \<^verbatim>\<open>force\<close> leaves the old text in \<^verbatim>\<open>index.html.bak-electronize\<close>.
\<close>

theorem forced_write_makes_no_backup:
  "safeWrite [''index.html''] ''new'' True indexWorld
     = (Inr True, \<lparr>tree = Dir [(''index.html'', File ''new'')], console = [Wrote [''index.html'']]\<rparr>)
   \<and> safeWrite [''index.html''] ''new'' False indexWorld
     = (Inr True, \<lparr>tree = Dir [(''index.html'', File ''new''),
                               (''index.html.bak-electronize'', File ''old'')],
                  console = [BackedUp [''index.html.bak-electronize''], Wrote [''index.html'']]\<rparr>)"
  by (simp add: safeWrite_def writeOut_def indexWorld_def exists_def readFile_def copyFile_def
      writeFile_def ensureDir_def dirname_def bak_def say_def)

lemma lookup_place_other:
  "place p n t = Some t' \<Longrightarrow> butlast q = butlast p \<Longrightarrow> q \<noteq> p \<Longrightarrow> q \<noteq> [] \<Longrightarrow>
   lookup q t' = lookup q t"
proof (induction p n t arbitrary: t' q rule: place.induct)
  case (3 x n es)
  then obtain y where q: "q = [y]" "y \<noteq> x"
    by (cases q rule: rev_cases) auto
  with 3 show ?case by (auto simp: update_conv')
next
  case (4 x y p n es)
  from 4(3-5) obtain z q' where q: "q = x # z # q'" "butlast (z # q') = butlast (y # p)"
    "z # q' \<noteq> y # p"
    by (cases q; cases "tl q") (auto split: if_splits)
  from 4(2) obtain c c' where c: "map_of es x = Some c" "place (y # p) n c = Some c'"
    "t' = Dir (AList.update x c' es)"
    by (auto split: option.splits)
  from 4(1) [OF c(1,2) q(2,3)] have "lookup (z # q') c' = lookup (z # q') c" by simp
  with q c show ?case by (simp add: update_conv')
qed simp_all

lemma mkdir_p_fresh:
  "mkdir_p q t = Some t' \<Longrightarrow> lookup q t = None \<Longrightarrow> lookup (q @ [z]) t' = None"
proof (induction q arbitrary: t t')
  case Nil
  then show ?case by simp
next
  case (Cons x q)
  from Cons.prems(1) obtain es where t: "t = Dir es" by (cases t) auto
  let ?c = "case map_of es x of None \<Rightarrow> Dir [] | Some c \<Rightarrow> c"
  from Cons.prems(1) t obtain c' where c': "mkdir_p q ?c = Some c'" "t' = Dir (AList.update x c' es)"
    by (auto split: option.splits)
  have "lookup (q @ [z]) c' = None"
  proof (cases "lookup q ?c")
    case None
    from Cons.IH [OF c'(1) None] show ?thesis .
  next
    case (Some d)
    with Cons.prems(2) t have n: "map_of es x = None" by (auto split: option.splits)
    with Some have "q = []" by (cases q) auto
    with c'(1) n show ?thesis by auto
  qed
  with c'(2) show ?case by (simp add: update_conv')
qed

lemma bak_props: "p \<noteq> [] \<Longrightarrow> bak p = butlast p @ [last p @ ''.bak-electronize'']"
  by (cases p rule: rev_cases) (auto simp: bak_def)

lemma ensureDir_bak:
  assumes "ensureDir (dirname p) t = Some t'" and "p \<noteq> []"
  shows "lookup (bak p) t' = lookup (bak p) t"
proof (cases "exists (dirname p) t")
  case True
  with assms(1) show ?thesis by (simp add: ensureDir_def)
next
  case False
  then have n: "lookup (butlast p) t = None" by (simp add: exists_def dirname_def)
  with assms(1) False have "mkdir_p (butlast p) t = Some t'" by (simp add: ensureDir_def dirname_def)
  from mkdir_p_fresh [OF this n] have "lookup (bak p) t' = None"
    by (simp add: bak_props [OF assms(2)])
  moreover have "lookup (bak p) t = None"
    using n by (simp add: bak_props [OF assms(2)] lookup_append)
  ultimately show ?thesis by simp
qed

lemma writeFile_bak:
  assumes "writeFile p c t = Some t'" and "p \<noteq> []"
  shows "lookup (bak p) t' = lookup (bak p) t"
proof -
  from assms(1) have "place p (File c) t = Some t'"
    by (auto simp: writeFile_def split: option.splits node.splits)
  moreover have "butlast (bak p) = butlast p" "bak p \<noteq> p" "bak p \<noteq> []"
    using assms(2) by (auto simp: bak_props) (cases p rule: rev_cases, auto)
  ultimately show ?thesis by (rule lookup_place_other)
qed

text \<open>
  With \<^verbatim>\<open>force\<close>, \<^verbatim>\<open>safeWrite\<close> never touches the path of the backup, whatever the file
  holds and whether or not the write succeeds.
\<close>

lemma forced_write_keeps_backup_path:
  assumes "safeWrite p content True w = (r, w')" and "p \<noteq> []"
  shows "lookup (bak p) (tree w') = lookup (bak p) (tree w)"
  using assms(1) ensureDir_bak [OF _ assms(2)] writeFile_bak [OF _ assms(2)]
  by (auto simp: safeWrite_def writeOut_def split: option.splits)

section \<open>Properties of the anchor text patcher\<close>

lemma lit_sfx:
  "lit p k s = Some r \<Longrightarrow> (\<And>s r. k s = Some r \<Longrightarrow> \<exists>m. s = m @ r) \<Longrightarrow> \<exists>m. s = m @ r"
proof (induction p arbitrary: s)
  case Nil
  then show ?case by simp
next
  case (Cons a p)
  show ?case
  proof (cases s)
    case Nil
    with Cons.prems show ?thesis by simp
  next
    case (Cons c cs)
    with Cons.prems(1) have "lit p k cs = Some r" by (simp split: if_splits)
    from Cons.IH [OF this Cons.prems(2)] obtain m where "cs = m @ r" by blast
    with Cons have "s = (c # m) @ r" by simp
    then show ?thesis by blast
  qed
qed

lemma one_sfx:
  "one P k s = Some r \<Longrightarrow> (\<And>s r. k s = Some r \<Longrightarrow> \<exists>m. s = m @ r) \<Longrightarrow> \<exists>m. s = m @ r"
proof (cases s)
  case Nil
  assume "one P k s = Some r"
  with Nil show ?thesis by simp
next
  case (Cons c cs)
  assume a: "one P k s = Some r" and b: "\<And>s r. k s = Some r \<Longrightarrow> \<exists>m. s = m @ r"
  from a Cons have "k cs = Some r" by (simp split: if_splits)
  from b [OF this] obtain m where "cs = m @ r" by blast
  with Cons have "s = (c # m) @ r" by simp
  then show ?thesis by blast
qed

lemma star_sfx:
  "star P k s = Some r \<Longrightarrow> (\<And>s r. k s = Some r \<Longrightarrow> \<exists>m. s = m @ r) \<Longrightarrow> \<exists>m. s = m @ r"
proof (induction s)
  case Nil
  from Nil(1) have "k [] = Some r" by simp
  then show ?case by (rule Nil(2))
next
  case (Cons c cs)
  show ?case
  proof (cases "P c \<and> star P k cs \<noteq> None")
    case True
    with Cons.prems(1) have "star P k cs = Some r" by auto
    from Cons.IH [OF this Cons.prems(2)] obtain m where "cs = m @ r" by blast
    then have "c # cs = (c # m) @ r" by simp
    then show ?thesis by blast
  next
    case False
    with Cons.prems(1) have "k (c # cs) = Some r" by (auto split: if_splits)
    then show ?thesis by (rule Cons.prems(2))
  qed
qed

lemma plus_sfx:
  "plus P k s = Some r \<Longrightarrow> (\<And>s r. k s = Some r \<Longrightarrow> \<exists>m. s = m @ r) \<Longrightarrow> \<exists>m. s = m @ r"
  unfolding plus_def by (erule one_sfx) (erule star_sfx)

lemma ieq_lt: "ieq CHR ''<'' c \<Longrightarrow> c = CHR ''<''"
  by (auto simp: ieq_def)

lemma moduleTagRegex_shape:
  assumes "moduleTagRegex s = Some r"
  shows "\<exists>m. s = CHR ''<'' # m @ r"
proof (cases s)
  case Nil
  with assms show ?thesis by (simp add: moduleTagRegex_def)
next
  case (Cons c cs)
  let ?k = "star notGt (lit ''type='' (one isQuote (lit ''module'' (one isQuote
       (star notGt (lit ''src='' (one isQuote (plus notQuote (one isQuote
         (star notGt (lit ''>'' (star isSpace (lit ''</script>'' Some)))))))))))))"
  from assms Cons have c: "c = CHR ''<''" and t: "lit ''script'' ?k cs = Some r"
    by (auto simp: moduleTagRegex_def ieq_lt split: if_splits)
  from t have "\<exists>m. cs = m @ r"
    by (elim lit_sfx star_sfx one_sfx plus_sfx) simp
  with c Cons show ?thesis by auto
qed

lemma lit_opens: "lit p k s = Some r \<Longrightarrow> lit p Some s \<noteq> None"
proof (induction p arbitrary: s)
  case Nil
  then show ?case by simp
next
  case (Cons a p)
  then show ?case by (cases s) (auto split: if_splits)
qed

lemma moduleTagRegex_opens: "moduleTagRegex s = Some r \<Longrightarrow> opensScript s"
  unfolding moduleTagRegex_def opensScript_def by (rule lit_opens)

lemma countScripts_append_ge: "countScripts b \<le> countScripts (a @ b)"
  by (induction a) auto

lemma lit_cut:
  "list_all (\<lambda>p. \<not> ieq p CHR ''<'') ps \<Longrightarrow>
   (lit ps Some (s @ CHR ''<'' # x) \<noteq> None) = (lit ps Some (s @ CHR ''<'' # y) \<noteq> None)"
proof (induction ps arbitrary: s)
  case Nil
  then show ?case by simp
next
  case (Cons p ps)
  then show ?case by (cases s) auto
qed

lemma opensScript_transfer:
  assumes "s \<noteq> []"
  shows "opensScript (s @ CHR ''<'' # x) = opensScript (s @ CHR ''<'' # y)"
proof -
  obtain c cs where s: "s = c # cs" using assms by (cases s) auto
  have "list_all (\<lambda>p. \<not> ieq p CHR ''<'') ''script''" by (simp add: ieq_def)
  from lit_cut [OF this, of cs x y] show ?thesis
    by (simp add: opensScript_def s)
qed

lemma not_opens_lt: "\<not> opensScript ''<''"
  by (simp add: opensScript_def)

lemma countScripts_split:
  "countScripts (pre @ CHR ''<'' # x) = countScripts (pre @ ''<'') + countScripts (CHR ''<'' # x)"
proof (induction pre)
  case Nil
  then show ?case using not_opens_lt by simp
next
  case (Cons c pre)
  have "opensScript ((c # pre) @ CHR ''<'' # x) = opensScript ((c # pre) @ CHR ''<'' # [])"
    by (rule opensScript_transfer) simp
  with Cons show ?case by simp
qed

lemma findTag_split:
  "countScripts (pre @ ''<'') = 0 \<Longrightarrow>
   findTag (pre @ CHR ''<'' # x) =
     (case findTag (CHR ''<'' # x) of None \<Rightarrow> None | Some (p, r) \<Rightarrow> Some (pre @ p, r))"
proof (induction pre)
  case Nil
  then show ?case by (simp split: option.splits)
next
  case (Cons c pre)
  from Cons.prems have no: "\<not> opensScript ((c # pre) @ CHR ''<'' # [])"
    and z: "countScripts (pre @ ''<'') = 0" by (auto split: if_splits)
  have "opensScript ((c # pre) @ CHR ''<'' # x) = opensScript ((c # pre) @ CHR ''<'' # [])"
    by (rule opensScript_transfer) simp
  with no have "\<not> opensScript (c # pre @ CHR ''<'' # x)" by simp
  then have "moduleTagRegex (c # pre @ CHR ''<'' # x) = None"
    using moduleTagRegex_opens by (cases "moduleTagRegex (c # pre @ CHR ''<'' # x)") auto
  with Cons.IH [OF z] show ?case by (simp split: option.splits)
qed

lemma findTag_Some:
  "findTag s = Some (pre, r) \<Longrightarrow> \<exists>t. s = pre @ t \<and> moduleTagRegex t = Some r"
proof (induction s arbitrary: pre)
  case Nil
  then show ?case by (simp split: option.splits)
next
  case (Cons c cs)
  show ?case
  proof (cases "moduleTagRegex (c # cs)")
    case (Some r')
    with Cons.prems show ?thesis by simp
  next
    case None
    with Cons.prems obtain p where f: "findTag cs = Some (p, r)" and pre: "pre = c # p"
      by (auto split: option.splits)
    from Cons.IH [OF f] pre show ?thesis by auto
  qed
qed

lemma findTag_here: "moduleTagRegex s = Some r \<Longrightarrow> findTag s = Some ([], r)"
  by (cases s) simp_all

lemma candidates_cases:
  assumes "entry \<in> set ENTRY_CANDIDATES"
    and "P ''main.tsx''" "P ''main.jsx''" "P ''index.tsx''" "P ''index.jsx''"
    and "P ''main.ts''" "P ''index.ts''" "P ''main.js''" "P ''index.js''"
  shows "P entry"
  using assms unfolding ENTRY_CANDIDATES_def by auto

lemmas regex_eval =
  relScript_def dq_def moduleTagRegex_def plus_def ieq_def isQuote_def notQuote_def notGt_def
  isSpace_def

lemma regex_relScript:
  "entry \<in> set ENTRY_CANDIDATES \<Longrightarrow> moduleTagRegex (relScript entry @ rest) = Some rest"
  by (erule candidates_cases) (simp_all add: regex_eval)

lemma count_relScript:
  "entry \<in> set ENTRY_CANDIDATES \<Longrightarrow> countScripts (relScript entry @ rest) = Suc (countScripts rest)"
  by (erule candidates_cases) (simp_all add: relScript_def dq_def opensScript_def ieq_def)

lemma relScript_lt: "\<exists>t. relScript entry = CHR ''<'' # t"
  by (simp add: relScript_def)

lemma patchedHtml_found:
  "findTag html = Some (pre, rest) \<Longrightarrow> patchedHtml entry html = pre @ relScript entry @ rest"
  by (simp add: patchedHtml_def)

lemma patch_text:
  assumes "entry \<in> set ENTRY_CANDIDATES" and "countScripts html = 1"
    and "findTag html = Some (pre, rest)"
  shows "(\<exists>old. html = pre @ old @ rest \<and> moduleTagRegex (old @ rest) = Some rest)
       \<and> countScripts (pre @ relScript entry @ rest) = 1
       \<and> findTag (pre @ relScript entry @ rest) = Some (pre, rest)"
proof -
  from findTag_Some [OF assms(3)] obtain t where t: "html = pre @ t" "moduleTagRegex t = Some rest"
    by blast
  from moduleTagRegex_shape [OF t(2)] obtain m where m: "t = CHR ''<'' # m @ rest" by blast
  have old: "html = pre @ (CHR ''<'' # m) @ rest \<and> moduleTagRegex ((CHR ''<'' # m) @ rest) = Some rest"
    using t m by simp
  have o: "opensScript (CHR ''<'' # m @ rest)" using t(2) m moduleTagRegex_opens by blast
  have "countScripts html = countScripts (pre @ ''<'') + countScripts (CHR ''<'' # m @ rest)"
    unfolding t(1) m by (rule countScripts_split)
  moreover have "countScripts (CHR ''<'' # m @ rest) = Suc (countScripts (m @ rest))"
    using o by simp
  ultimately have z: "countScripts (pre @ ''<'') = 0" and "countScripts (m @ rest) = 0"
    using assms(2) by auto
  with countScripts_append_ge [of rest m] have zr: "countScripts rest = 0" by simp
  obtain u where u: "relScript entry = CHR ''<'' # u" using relScript_lt by blast
  have r: "moduleTagRegex (CHR ''<'' # u @ rest) = Some rest"
    using regex_relScript [OF assms(1), of rest] by (simp add: u)
  have c: "countScripts (CHR ''<'' # u @ rest) = Suc (countScripts rest)"
    using count_relScript [OF assms(1), of rest] by (simp add: u)
  have "countScripts (pre @ CHR ''<'' # u @ rest) = 1"
    using countScripts_split [of pre "u @ rest"] z zr c by simp
  moreover have "findTag (pre @ CHR ''<'' # u @ rest) = Some (pre, rest)"
    using findTag_split [OF z, of "u @ rest"] findTag_here [OF r] by simp
  ultimately show ?thesis using old by (simp add: u)
qed

lemma patchIndexHtml_existing:
  assumes "readFile INDEX_HTML (tree w) = Some html" and "findTag html \<noteq> None"
  shows "\<exists>es. tree w = Dir es \<and> patchIndexHtml entry w =
     (Inr (), say (PatchedIndex entry) (say (Wrote INDEX_HTML)
        (w\<lparr>tree := Dir (AList.update ''index.html'' (File (patchedHtml entry html)) es)\<rparr>)))"
proof -
  from assms(1) obtain es where t: "tree w = Dir es" and f: "map_of es ''index.html'' = Some (File html)"
    by (cases "tree w") (auto simp: readFile_def INDEX_HTML_def split: option.splits node.splits)
  from assms(2) have n: "(findTag html = None \<and> str_includes (relScript entry) html) = False"
    by simp
  show ?thesis
    using t f assms(1)
    by (simp add: patchIndexHtml_def n exists_def INDEX_HTML_def safeWrite_def writeOut_def
        ensureDir_def dirname_def writeFile_def)
qed

text \<open>
  C7, as the code has it. Let the entry be one that \<^verbatim>\<open>detectEntry\<close> can return, and let
  \<^verbatim>\<open>index.html\<close> hold a document with exactly one place that opens a script tag, where
  the pattern (\<^verbatim>\<open>type="module"\<close> before \<^verbatim>\<open>src\<close>, inside one tag) matches. Then the patch
  replaces that match by the tag for the new entry and leaves the text before and after
  it as it was; the patched document again has exactly one script tag, the pattern finds
  it at the same place, and patching again gives the same text. On disk: the second run
  of \<^verbatim>\<open>patchIndexHtml\<close> leaves the tree as the first run left it.
\<close>

theorem anchor_patch_idempotent:
  assumes "entry \<in> set ENTRY_CANDIDATES" and "countScripts html = 1"
    and "findTag html = Some (pre, rest)"
    and "readFile INDEX_HTML (tree w) = Some html"
  shows "(\<exists>old. html = pre @ old @ rest \<and> moduleTagRegex (old @ rest) = Some rest)
       \<and> patchedHtml entry html = pre @ relScript entry @ rest
       \<and> countScripts (patchedHtml entry html) = 1
       \<and> findTag (patchedHtml entry html) = Some (pre, rest)
       \<and> patchedHtml entry (patchedHtml entry html) = patchedHtml entry html
       \<and> (\<exists>w1 w2. patchIndexHtml entry w = (Inr (), w1)
             \<and> readFile INDEX_HTML (tree w1) = Some (pre @ relScript entry @ rest)
             \<and> patchIndexHtml entry w1 = (Inr (), w2)
             \<and> tree w2 = tree w1)"
proof -
  let ?new = "pre @ relScript entry @ rest"
  note t = patch_text [OF assms(1-3)]
  have p1: "patchedHtml entry html = ?new" using assms(3) by (rule patchedHtml_found)
  have p2: "patchedHtml entry ?new = ?new" using t by (simp add: patchedHtml_found)
  from patchIndexHtml_existing [OF assms(4), of entry] assms(3)
  obtain es where es: "tree w = Dir es"
    and r1: "patchIndexHtml entry w =
     (Inr (), say (PatchedIndex entry) (say (Wrote INDEX_HTML)
        (w\<lparr>tree := Dir (AList.update ''index.html'' (File ?new) es)\<rparr>)))"
    by (auto simp: p1)
  let ?w1 = "say (PatchedIndex entry) (say (Wrote INDEX_HTML)
        (w\<lparr>tree := Dir (AList.update ''index.html'' (File ?new) es)\<rparr>))"
  have rd: "readFile INDEX_HTML (tree ?w1) = Some ?new"
    by (simp add: readFile_def INDEX_HTML_def update_conv')
  have f: "findTag ?new \<noteq> None" using t by simp
  from patchIndexHtml_existing [OF rd f, of entry]
  obtain w2 where r2: "patchIndexHtml entry ?w1 = (Inr (), w2)" and "tree w2 = tree ?w1"
    by (auto simp: p2)
  with r1 rd have "\<exists>w1 w2. patchIndexHtml entry w = (Inr (), w1)
             \<and> readFile INDEX_HTML (tree w1) = Some ?new
             \<and> patchIndexHtml entry w1 = (Inr (), w2)
             \<and> tree w2 = tree w1"
    by blast
  with t p1 p2 show ?thesis by simp
qed

theorem anchor_patch_idempotent_witness:
  "patchedHtml ''main.tsx'' docTypeFirst
     = ''<body><div id=root></div>'' @ relScript ''main.tsx'' @ ''</body>''
   \<and> countScripts (patchedHtml ''main.tsx'' docTypeFirst) = 1
   \<and> patchedHtml ''main.tsx'' (patchedHtml ''main.tsx'' docTypeFirst)
     = patchedHtml ''main.tsx'' docTypeFirst"
proof -
  have e: "''main.tsx'' \<in> set ENTRY_CANDIDATES" by (simp add: ENTRY_CANDIDATES_def)
  have c: "countScripts docTypeFirst = 1"
    by (simp add: docTypeFirst_def oldTag_def dq_def opensScript_def ieq_def)
  have f: "findTag docTypeFirst = Some (''<body><div id=root></div>'', ''</body>'')"
    by (simp add: docTypeFirst_def oldTag_def regex_eval)
  have r: "readFile INDEX_HTML (tree htmlWorld) = Some docTypeFirst"
    by (simp add: htmlWorld_def readFile_def INDEX_HTML_def)
  note t = anchor_patch_idempotent [OF e c f r]
  from t [THEN conjunct2, THEN conjunct1]
    t [THEN conjunct2, THEN conjunct2, THEN conjunct1]
    t [THEN conjunct2, THEN conjunct2, THEN conjunct2, THEN conjunct2, THEN conjunct1]
  show ?thesis by (intro conjI)
qed

lemma count_docSrcFirst: "countScripts docSrcFirst = 1"
  by (simp add: docSrcFirst_def oldTagSrcFirst_def dq_def opensScript_def ieq_def)

lemma find_docSrcFirst: "findTag docSrcFirst = None"
  by (simp add: docSrcFirst_def oldTagSrcFirst_def regex_eval)

lemma tags_docSrcFirst: "countTags docSrcFirst = 0"
  by (simp add: countTags_def docSrcFirst_def oldTagSrcFirst_def regex_eval)

lemma patched_docSrcFirst:
  "patchedHtml ''main.tsx'' docSrcFirst
     = ''<body><div id=root></div>'' @ oldTagSrcFirst @ ''  '' @ relScript ''main.tsx'' @ nl @ ''</body>''"
  by (simp add: patchedHtml_def find_docSrcFirst)
    (simp add: docSrcFirst_def oldTagSrcFirst_def relScript_def dq_def nl_def startsWith_def)

lemma count_patched_docSrcFirst: "countScripts (patchedHtml ''main.tsx'' docSrcFirst) = 2"
  unfolding patched_docSrcFirst
  by (simp add: oldTagSrcFirst_def relScript_def dq_def nl_def opensScript_def ieq_def)

lemma tags_docUnclosed: "countTags docUnclosed = 1"
  by (simp add: countTags_def docUnclosed_def regex_eval)

lemma find_docUnclosed:
  "findTag docUnclosed = Some (''<script type='' @ dq @ ''module'' @ dq @ '' src='' @ dq @ ''foo>bar'', [])"
  by (simp add: docUnclosed_def regex_eval)

lemma patched_twice_docUnclosed:
  "patchedHtml ''main.tsx'' (patchedHtml ''main.tsx'' docUnclosed) = relScript ''main.tsx''"
  by (simp add: patchedHtml_def find_docUnclosed) (simp add: regex_eval)


text \<open>
  C7 as stated fails in two ways. A module script tag that has \<^verbatim>\<open>src\<close> before \<^verbatim>\<open>type\<close> is
  not found by the pattern: the document keeps it and gets a second tag before
  \<^verbatim>\<open></body>\<close>. And a document in which the pattern has exactly one match, but where an
  attribute value that is never closed stands before it, is patched differently the
  second time: the first patch makes the pattern match from the earlier place on.
\<close>

theorem anchor_patch_idempotent_counterexample:
  "countScripts docSrcFirst = 1
   \<and> patchedHtml ''main.tsx'' docSrcFirst
     = ''<body><div id=root></div>'' @ oldTagSrcFirst @ ''  '' @ relScript ''main.tsx'' @ nl @ ''</body>''
   \<and> countScripts (patchedHtml ''main.tsx'' docSrcFirst) = 2
   \<and> countTags docUnclosed = 1
   \<and> patchedHtml ''main.tsx'' (patchedHtml ''main.tsx'' docUnclosed)
     \<noteq> patchedHtml ''main.tsx'' docUnclosed"
proof -
  have "patchedHtml ''main.tsx'' docUnclosed
      = ''<script type='' @ dq @ ''module'' @ dq @ '' src='' @ dq @ ''foo>bar'' @ relScript ''main.tsx''"
    by (simp add: patchedHtml_def find_docUnclosed)
  then have "length (patchedHtml ''main.tsx'' docUnclosed) = 34 + length (relScript ''main.tsx'')"
    by (simp add: dq_def)
  then have "patchedHtml ''main.tsx'' (patchedHtml ''main.tsx'' docUnclosed)
     \<noteq> patchedHtml ''main.tsx'' docUnclosed"
    unfolding patched_twice_docUnclosed by auto
  with count_docSrcFirst patched_docSrcFirst count_patched_docSrcFirst tags_docUnclosed
  show ?thesis by (intro conjI)
qed

section \<open>Properties of the run\<close>

lemma place_frame:
  "place (y # q) n t = Some t' \<Longrightarrow> x \<noteq> y \<Longrightarrow> rootMap t' x = rootMap t x"
  by (cases t; cases q) (auto simp: rootMap_def update_conv' split: option.splits)

lemma remove_frame: "x \<noteq> y \<Longrightarrow> rootMap (remove (y # q) t) x = rootMap t x"
  by (cases t; cases q) (auto simp: rootMap_def update_conv' delete_conv' split: option.splits)

lemma mkdir_p_frame:
  "mkdir_p (y # q) t = Some t' \<Longrightarrow> x \<noteq> y \<Longrightarrow> rootMap t' x = rootMap t x"
  by (cases t) (auto simp: rootMap_def update_conv' split: option.splits)

lemma ensureDir_frame:
  "ensureDir p t = Some t' \<Longrightarrow> p = [] \<or> x \<noteq> hd p \<Longrightarrow> rootMap t' x = rootMap t x"
  by (cases p) (auto simp: ensureDir_def exists_def mkdir_p_frame split: if_splits)

lemma writeFile_frame:
  "writeFile (y # q) c t = Some t' \<Longrightarrow> x \<noteq> y \<Longrightarrow> rootMap t' x = rootMap t x"
  by (auto simp: writeFile_def place_frame split: option.splits node.splits)

lemma writeOut_frame:
  assumes "writeOut (y # q) c w = (r, w')" and "x \<noteq> y"
  shows "rootMap (tree w') x = rootMap (tree w) x"
proof -
  have d: "dirname (y # q) = [] \<or> x \<noteq> hd (dirname (y # q))"
    using assms(2) by (cases q) (auto simp: dirname_def)
  show ?thesis
    using assms(1) ensureDir_frame [OF _ d] writeFile_frame [OF _ assms(2)]
    by (auto simp: writeOut_def split: option.splits)
qed

lemma bak_Cons: "bak (y # q) = (if q = [] then [y @ ''.bak-electronize''] else y # bak q)"
  by (cases q rule: rev_cases) (auto simp: bak_def)

lemma safeWrite_frame:
  assumes "safeWrite (y # q) c f w = (r, w')" and "x \<noteq> y" and "x \<noteq> y @ ''.bak-electronize''"
  shows "rootMap (tree w') x = rootMap (tree w) x"
proof -
  obtain z q' where b: "bak (y # q) = z # q'" "x \<noteq> z"
    using assms(2,3) by (cases "q = []") (auto simp: bak_Cons)
  have c: "rootMap (case copyFile (y # q) (bak (y # q)) (tree w) of None \<Rightarrow> tree w | Some t \<Rightarrow> t) x
      = rootMap (tree w) x"
    using writeFile_frame [OF _ b(2)]
    by (auto simp: copyFile_def b(1) split: option.splits)
  show ?thesis
    using assms(1) c writeOut_frame [OF _ assms(2)]
    by (auto simp: safeWrite_def split: if_splits option.splits)
qed

lemma writeOut_error: "writeOut p c w = (Inl e, w') \<Longrightarrow> e = Thrown"
  by (auto simp: writeOut_def split: option.splits)

lemma safeWrite_error: "safeWrite p c f w = (Inl e, w') \<Longrightarrow> e = Thrown"
  by (auto simp: safeWrite_def writeOut_error split: if_splits option.splits)

lemma writeStage_frame:
  "writeStage (y # q) c f w = (r, w') \<Longrightarrow> x \<noteq> y \<Longrightarrow> x \<noteq> y @ ''.bak-electronize'' \<Longrightarrow>
   rootMap (tree w') x = rootMap (tree w) x"
  by (auto simp: writeStage_def safeWrite_frame split: prod.splits sum.splits)

lemma writeStage_error: "writeStage p c f w = (Inl e, w') \<Longrightarrow> e = Thrown"
  by (auto simp: writeStage_def safeWrite_error split: prod.splits sum.splits)

lemma moveOne_frame:
  assumes "moveOne env name w = (r, w')" and "x \<noteq> ''src''"
  shows "rootMap (tree w') x = rootMap (tree w) x"
  using assms place_frame [of "''src''" _ _ _ _ x] remove_frame [of x "''src''"]
  by (auto simp: moveOne_def rename_def cp_def SRC_def UI_def
      split: option.splits if_splits)

lemma moveOne_error: "moveOne env name w = (Inl e, w') \<Longrightarrow> e = Thrown"
  by (auto simp: moveOne_def split: option.splits)

lemma moveItems_frame:
  "moveItems env items w = (r, w') \<Longrightarrow> x \<noteq> ''src'' \<Longrightarrow>
   rootMap (tree w') x = rootMap (tree w) x"
proof (induction items arbitrary: w)
  case Nil
  then show ?case by simp
next
  case (Cons name items)
  show ?case
  proof (cases "name = ''electron''")
    case True
    with Cons show ?thesis by simp
  next
    case False
    obtain r1 w1 where m: "moveOne env name w = (r1, w1)" by (cases "moveOne env name w")
    have f: "rootMap (tree w1) x = rootMap (tree w) x" using m Cons.prems(2) by (rule moveOne_frame)
    show ?thesis
    proof (cases r1)
      case (Inl e)
      with Cons.prems(1) False m f show ?thesis by simp
    next
      case (Inr u)
      with Cons.prems(1) False m have "moveItems env items w1 = (r, w')" by simp
      from Cons.IH [OF this Cons.prems(2)] f show ?thesis by simp
    qed
  qed
qed

lemma moveItems_error: "moveItems env items w = (Inl e, w') \<Longrightarrow> e = Thrown"
proof (induction items arbitrary: w)
  case Nil
  then show ?case by simp
next
  case (Cons name items)
  then show ?case
    by (auto simp: moveOne_error split: if_splits prod.splits sum.splits)
qed

lemma moveSrcToUi_frame:
  assumes "moveSrcToUi env w = (r, w')" and "x \<noteq> ''src''"
  shows "rootMap (tree w') x = rootMap (tree w) x"
proof -
  have e: "ensureDir UI t = Some t' \<Longrightarrow> rootMap t' x = rootMap t x" for t t'
    using assms(2) by (intro ensureDir_frame [of UI t t' x]) (simp_all add: UI_def)
  have m: "moveItems env items v = (r', v') \<Longrightarrow> rootMap (tree v') x = rootMap (tree v) x"
    for items v r' v'
    using assms(2) by (rule moveItems_frame [rotated])
  show ?thesis
    using assms(1)
    by (auto simp: moveSrcToUi_def fail_def split: if_splits option.splits prod.splits sum.splits
        dest!: e m)
qed

lemma moveSrcToUi_error:
  "moveSrcToUi env w = (Inl e, w') \<Longrightarrow> e = Exit 1 \<or> e = Thrown"
  by (auto simp: moveSrcToUi_def fail_def moveItems_error
      split: if_splits option.splits prod.splits sum.splits)

lemma patchIndexHtml_frame:
  assumes "patchIndexHtml entry w = (r, w')" and "x \<noteq> ''index.html''"
    and "x \<noteq> ''index.html.bak-electronize''"
  shows "rootMap (tree w') x = rootMap (tree w) x"
proof -
  have s: "safeWrite INDEX_HTML c f v = (r', v') \<Longrightarrow> rootMap (tree v') x = rootMap (tree v) x"
    for c f v r' v'
    using assms(2,3) unfolding INDEX_HTML_def
    by (intro safeWrite_frame [of "''index.html''" "[]" c f v r' v' x]) simp_all
  show ?thesis
    using assms(1)
    by (auto simp: patchIndexHtml_def split: if_splits option.splits prod.splits sum.splits
        dest!: s)
qed

lemma patchIndexHtml_error: "patchIndexHtml entry w = (Inl e, w') \<Longrightarrow> e = Thrown"
  by (auto simp: patchIndexHtml_def safeWrite_error
      split: if_splits option.splits prod.splits sum.splits)

lemma exists_PACKAGE_JSON: "exists PACKAGE_JSON t = (rootMap t ''package.json'' \<noteq> None)"
  by (cases t) (auto simp: exists_def PACKAGE_JSON_def rootMap_def split: option.splits)

lemma result_kinds:
  "(\<And>e. r = Inl e \<Longrightarrow> e = Exit 1 \<or> e = Thrown) \<Longrightarrow>
   r = Inr () \<or> r = Inl (Exit 1) \<or> r = Inl Thrown"
  by (cases r) auto

lemma electronDirStage_frame:
  "electronDirStage w = (r, w') \<Longrightarrow> x \<noteq> ''src'' \<Longrightarrow> rootMap (tree w') x = rootMap (tree w) x"
  using ensureDir_frame [of ELECTRON_DIR "tree w" _ x]
  by (auto simp: electronDirStage_def ELECTRON_DIR_def split: option.splits)

lemma electronDirStage_error: "electronDirStage w = (Inl e, w') \<Longrightarrow> e = Thrown"
  by (auto simp: electronDirStage_def split: option.splits)

lemma relocationStage_frame:
  "relocationStage env w = (r, w') \<Longrightarrow> x \<noteq> ''src'' \<Longrightarrow> rootMap (tree w') x = rootMap (tree w) x"
  by (auto simp: relocationStage_def moveSrcToUi_frame split: if_splits)

lemma relocationStage_error: "relocationStage env w = (Inl e, w') \<Longrightarrow> e = Exit 1 \<or> e = Thrown"
  by (auto simp: relocationStage_def dest: moveSrcToUi_error split: if_splits)

lemma firstStages_step:
  assumes "s \<in> set (firstStages env)" and "s w = (r, w')"
  shows "rootMap (tree w') ''package.json'' = rootMap (tree w) ''package.json''
       \<and> (r = Inr () \<or> r = Inl (Exit 1) \<or> r = Inl Thrown)"
proof -
  have w: "writeStage (y # q) c f w = (r, w') \<Longrightarrow> ''package.json'' \<noteq> y \<Longrightarrow>
      ''package.json'' \<noteq> y @ ''.bak-electronize'' \<Longrightarrow>
      rootMap (tree w') ''package.json'' = rootMap (tree w) ''package.json''
       \<and> (r = Inr () \<or> r = Inl (Exit 1) \<or> r = Inl Thrown)" for y q c f
    using writeStage_frame [of y q c f w r w' "''package.json''"]
      result_kinds [of r] writeStage_error [of "y # q" c f w _ w'] by blast
  from assms(1) consider
      (start) "s = (\<lambda>w. (Inr (), say Starting w))"
    | (move) "s = relocationStage env"
    | (dir) "s = electronDirStage"
    | (html) "s = (\<lambda>w. patchIndexHtml (detectEntry (tree w)) w)"
    | (wr) y q c f where "s = writeStage (y # q) c f" "''package.json'' \<noteq> y"
        "''package.json'' \<noteq> y @ ''.bak-electronize''"
    unfolding firstStages_def ELECTRON_DIR_def TSCONFIG_ELECTRON_def VITE_ELECTRON_def
      VITE_RENDERER_def ELECTRON_BUILDER_YML_def
    by (auto simp del: fun_eq_iff)
  then show ?thesis
  proof cases
    case start
    with assms(2) show ?thesis by auto
  next
    case move
    with assms(2) relocationStage_frame [of env w r w' "''package.json''"]
      result_kinds [of r] relocationStage_error [of env w _ w']
    show ?thesis by auto
  next
    case dir
    with assms(2) electronDirStage_frame [of w r w' "''package.json''"]
      result_kinds [of r] electronDirStage_error [of w _ w']
    show ?thesis by auto
  next
    case html
    with assms(2) patchIndexHtml_frame [of "detectEntry (tree w)" w r w' "''package.json''"]
      result_kinds [of r] patchIndexHtml_error [of "detectEntry (tree w)" w _ w']
    show ?thesis by auto
  next
    case wr
    with assms(2) w show ?thesis by blast
  qed
qed

lemma runStages_first:
  "set ss \<subseteq> set (firstStages env) \<Longrightarrow> runStages ss w = (r, w') \<Longrightarrow>
   rootMap (tree w') ''package.json'' = rootMap (tree w) ''package.json''
     \<and> (r = Inr () \<or> r = Inl (Exit 1) \<or> r = Inl Thrown)"
proof (induction ss arbitrary: w)
  case Nil
  then show ?case by auto
next
  case (Cons s ss)
  obtain r1 w1 where s: "s w = (r1, w1)" by (cases "s w")
  from Cons.prems(1) have "s \<in> set (firstStages env)" by simp
  from firstStages_step [OF this s]
  have f: "rootMap (tree w1) ''package.json'' = rootMap (tree w) ''package.json''"
    and k: "r1 = Inr () \<or> r1 = Inl (Exit 1) \<or> r1 = Inl Thrown" by auto
  show ?case
  proof (cases r1)
    case (Inl e)
    with Cons.prems(2) s f k show ?thesis by auto
  next
    case (Inr u)
    with Cons.prems(2) s have "runStages ss w1 = (r, w')" by simp
    moreover from Cons.prems(1) have "set ss \<subseteq> set (firstStages env)" by simp
    ultimately show ?thesis using Cons.IH f by metis
  qed
qed

lemma runStages_append:
  "runStages (a @ b) w =
     (case runStages a w of (Inl e, w') \<Rightarrow> (Inl e, w') | (Inr u, w') \<Rightarrow> runStages b w')"
  by (induction a arbitrary: w) (auto split: prod.splits sum.splits)

lemma run_without_manifest:
  assumes "\<not> exists PACKAGE_JSON (tree w)"
  shows "\<exists>w'. (\<forall>later. runStages (firstStages env @ patchPackageJson env # later) w
                  = (Inl (Exit 1), w')
                \<or> runStages (firstStages env @ patchPackageJson env # later) w = (Inl Thrown, w'))"
proof -
  obtain r1 w1 where r: "runStages (firstStages env) w = (r1, w1)"
    by (cases "runStages (firstStages env) w")
  from runStages_first [OF subset_refl r] assms
  have n: "\<not> exists PACKAGE_JSON (tree w1)"
    and k: "r1 = Inr () \<or> r1 = Inl (Exit 1) \<or> r1 = Inl Thrown"
    by (auto simp: exists_PACKAGE_JSON)
  from n have p: "patchPackageJson env w1 = (Inl (Exit 1), say NoPackageJson w1)"
    by (simp add: patchPackageJson_def fail_def)
  from k consider "r1 = Inr ()" | "r1 = Inl (Exit 1)" | "r1 = Inl Thrown" by blast
  then show ?thesis
  proof cases
    case 1
    with r p have "runStages (firstStages env @ patchPackageJson env # later) w
        = (Inl (Exit 1), say NoPackageJson w1)" for later
      by (simp add: runStages_append)
    then show ?thesis by blast
  next
    case 2
    with r have "runStages (firstStages env @ patchPackageJson env # later) w
        = (Inl (Exit 1), w1)" for later
      by (simp add: runStages_append)
    then show ?thesis by blast
  next
    case 3
    with r have "runStages (firstStages env @ patchPackageJson env # later) w
        = (Inl Thrown, w1)" for later
      by (simp add: runStages_append)
    then show ?thesis by blast
  qed
qed

text \<open>
  C3, as the code has it. When \<^verbatim>\<open>package.json\<close> is missing, the run ends with exit status 1,
  whatever the earlier stages did, and no stage after \<^verbatim>\<open>patchPackageJson\<close> is run: the
  result is the same whatever stages follow. When \<^verbatim>\<open>src\<close> is missing, \<^verbatim>\<open>moveSrcToUi\<close>
  itself would end the process with status 1, but the run never calls it then: its
  relocation stage tests for \<^verbatim>\<open>src\<close> first, prints a warning and goes on.
\<close>

theorem missing_manifest_aborts:
  "(\<not> exists PACKAGE_JSON (tree w) \<longrightarrow>
      fst (main env w) = 1
      \<and> (\<forall>later. runStages (firstStages env @ patchPackageJson env # later) w
            = runStages (firstStages env @ [patchPackageJson env]) w))
   \<and> (\<not> exists SRC (tree w) \<longrightarrow>
      moveSrcToUi env w = (Inl (Exit 1), say NoSrcFound w)
      \<and> relocationStage env w = (Inr (), say NoSrcSkipping w))"
proof -
  have a: "fst (main env w) = 1
      \<and> (\<forall>later. runStages (firstStages env @ patchPackageJson env # later) w
            = runStages (firstStages env @ [patchPackageJson env]) w)"
    if "\<not> exists PACKAGE_JSON (tree w)"
  proof -
    from run_without_manifest [OF that, of env]
    obtain w' where *: "\<And>later. runStages (firstStages env @ patchPackageJson env # later) w
                  = (Inl (Exit 1), w')
                \<or> runStages (firstStages env @ patchPackageJson env # later) w = (Inl Thrown, w')"
      by blast
    from * [of "lastStages env"] have "fst (main env w) = 1"
      by (auto simp: main_def)
    moreover have "runStages (firstStages env @ patchPackageJson env # later) w
            = runStages (firstStages env @ [patchPackageJson env]) w" for later
    proof -
      have e: "runStages (firstStages env @ patchPackageJson env # x) w
          = (case runStages (firstStages env) w of
               (Inl e, w') \<Rightarrow> (Inl e, w')
             | (Inr u, w') \<Rightarrow> runStages (patchPackageJson env # x) w')" for x
        by (rule runStages_append)
      obtain r1 w1 where r: "runStages (firstStages env) w = (r1, w1)"
        by (cases "runStages (firstStages env) w")
      from runStages_first [OF subset_refl r] that
      have "\<not> exists PACKAGE_JSON (tree w1)" by (auto simp: exists_PACKAGE_JSON)
      then have "patchPackageJson env w1 = (Inl (Exit 1), say NoPackageJson w1)"
        by (simp add: patchPackageJson_def fail_def)
      then show ?thesis unfolding e r by (cases r1) simp_all
    qed
    ultimately show ?thesis by blast
  qed
  have b: "moveSrcToUi env w = (Inl (Exit 1), say NoSrcFound w)
      \<and> relocationStage env w = (Inr (), say NoSrcSkipping w)"
    if "\<not> exists SRC (tree w)"
    using that by (simp add: moveSrcToUi_def fail_def relocationStage_def)
  from a b show ?thesis by blast
qed

theorem missing_manifest_aborts_witness:
  "fst (main (exampleEnv False) exampleWorld) = 1
   \<and> moveSrcToUi (exampleEnv False) noSrcWorld = (Inl (Exit 1), say NoSrcFound noSrcWorld)
   \<and> relocationStage (exampleEnv False) noSrcWorld = (Inr (), say NoSrcSkipping noSrcWorld)"
proof -
  have p: "\<not> exists PACKAGE_JSON (tree exampleWorld)"
    by (simp add: exampleWorld_def exists_def PACKAGE_JSON_def)
  have s: "\<not> exists SRC (tree noSrcWorld)"
    by (simp add: noSrcWorld_def exists_def SRC_def)
  note a = missing_manifest_aborts [of exampleWorld "exampleEnv False", THEN conjunct1, THEN mp,
      OF p, THEN conjunct1]
  note b = missing_manifest_aborts [of noSrcWorld "exampleEnv False", THEN conjunct2, THEN mp, OF s]
  from a b show ?thesis by (intro conjI) simp_all
qed

lemma no_warnings_empty: "scriptWarnings DESIRED_SCRIPTS Map.empty = []"
  by (simp add: DESIRED_SCRIPTS_def scriptStep_def truthy_def)

lemma detect_noSrc: "detectEntry (Dir [(''package.json'', File ''{}''),
     (''src'', Dir [(''electron'', Dir [(''main.ts'', File ''main''), (''preload.ts'', File ''preload'')])])])
   = ''main.tsx''"
  by (simp add: detectEntry_def ENTRY_CANDIDATES_def exists_def UI_def)

text \<open>
  C3 as stated fails for the source directory: in a project that has a manifest and no
  \<^verbatim>\<open>src\<close>, the run does not abort. It prints the warning, runs every later stage and ends
  with exit status 0.
\<close>

theorem missing_manifest_aborts_counterexample:
  "\<not> exists SRC (tree noSrcWorld)
   \<and> fst (main (exampleEnv False) noSrcWorld) = 0
   \<and> console (snd (main (exampleEnv False) noSrcWorld))
     = [Starting, NoSrcSkipping, Wrote [''src'', ''electron'', ''main.ts''],
        Wrote [''src'', ''electron'', ''preload.ts''], Wrote [''index.html''],
        CreatedIndex ''main.tsx'', Wrote [''tsconfig.electron.json''],
        Wrote [''vite.electron.config.ts''], Wrote [''vite.renderer.config.ts''],
        Wrote [''electron-builder.yml''], Wrote [''package.json.bak-electronize''],
        Wrote [''package.json''], UpdatedPackage, EnsuredIcons, SkippedInstall, Complete]"
proof -
  have "main (exampleEnv False) noSrcWorld = (0, snd (main (exampleEnv False) noSrcWorld))
    \<and> console (snd (main (exampleEnv False) noSrcWorld))
     = [Starting, NoSrcSkipping, Wrote [''src'', ''electron'', ''main.ts''],
        Wrote [''src'', ''electron'', ''preload.ts''], Wrote [''index.html''],
        CreatedIndex ''main.tsx'', Wrote [''tsconfig.electron.json''],
        Wrote [''vite.electron.config.ts''], Wrote [''vite.renderer.config.ts''],
        Wrote [''electron-builder.yml''], Wrote [''package.json.bak-electronize''],
        Wrote [''package.json''], UpdatedPackage, EnsuredIcons, SkippedInstall, Complete]"
    by (simp add: main_def firstStages_def lastStages_def noSrcWorld_def exampleEnv_def
        relocationStage_def electronDirStage_def writeStage_def safeWrite_def writeOut_def
        patchIndexHtml_def patchPackageJson_def ensurePublicIcons_def writeIfMissing_def
        ensureDir_def writeFile_def readFile_def exists_def dirname_def bak_def say_def
        SRC_def ELECTRON_DIR_def INDEX_HTML_def PACKAGE_JSON_def TSCONFIG_ELECTRON_def
        VITE_ELECTRON_def VITE_RENDERER_def ELECTRON_BUILDER_YML_def
        detect_noSrc no_warnings_empty manifest_def typeOverridden_def truthy_def orEmpty_def)
  moreover have "\<not> exists SRC (tree noSrcWorld)"
    by (simp add: noSrcWorld_def exists_def SRC_def)
  ultimately show ?thesis by (metis fst_conv)
qed

end
